theory Spec2Isabelle
  imports Complex_Main "HOL-Library.Log_Nat" "HOL-Library.AList"
begin

section \<open>Python values used by \<open>cogs/points.py\<close>\<close>

text \<open>
  The cog keeps its state in Python dictionaries and in three SQL tables, and computes the
  payout odds with Python's float arithmetic. This section fixes how those values are
  represented: user-visible rejections and Python exceptions as one \<open>error\<close> type,
  dictionaries as insertion-ordered association lists with distinct keys, integers as
  \<open>int\<close> (Python integers are unbounded) and floats as the rationals that are binary64
  values.
\<close>

datatype error =
    SideConflict        \<comment> \<open>"... tried to change sides..."\<close>
  | NotANumber          \<comment> \<open>"You must wager a numeric amount!"\<close>
  | NonPositiveWager    \<comment> \<open>"You must wager more than 0 points!"\<close>
  | InsufficientFunds   \<comment> \<open>"You don't have enough points!"\<close>
  | ZeroDivisionError
  | OverflowError
  | AttributeError

type_synonym ('k, 'v) dict = "('k \<times> 'v) list"

text \<open>\<open>k in d\<close>.\<close>

definition dict_contains :: "('k, 'v) dict \<Rightarrow> 'k \<Rightarrow> bool" where
  "dict_contains d k = (map_of d k \<noteq> None)"

text \<open>\<open>d.pop(k, default)\<close>: the value removed (or the default) and the dictionary left.\<close>

definition dict_pop :: "('k, 'v) dict \<Rightarrow> 'k \<Rightarrow> 'v \<Rightarrow> 'v \<times> ('k, 'v) dict" where
  "dict_pop d k dflt =
     (case map_of d k of None \<Rightarrow> (dflt, d) | Some v \<Rightarrow> (v, AList.delete k d))"

text \<open>\<open>d[k] = v\<close>: an existing key keeps its place, a new key goes last.\<close>

definition dict_set :: "('k, 'v) dict \<Rightarrow> 'k \<Rightarrow> 'v \<Rightarrow> ('k, 'v) dict" where
  "dict_set d k v = AList.update k v d"

text \<open>\<open>sum(d.values())\<close>.\<close>

definition sum_values :: "('k, int) dict \<Rightarrow> int" where
  "sum_values d = sum_list (map snd d)"

subsection \<open>Floats\<close>

text \<open>
  A Python float is an IEEE 754 binary64 value; a finite one is a rational \<open>m * 2^e\<close>
  with \<open>\<bar>m\<bar> < 2^53\<close> and \<open>- 1074 \<le> e\<close>. Every float operation the cog uses
  (\<open>int / int\<close>, \<open>1 + float\<close>, \<open>int * float\<close>) returns the exact result rounded to the
  nearest such value, ties to the even mantissa. \<open>int / int\<close> and the conversion of an
  \<open>int\<close> to a float raise \<open>OverflowError\<close> when the rounded result is out of range. A float
  product that overflows yields infinity, and the only consumer of a product here,
  \<open>round\<close>, raises \<open>OverflowError\<close> on infinity: \<open>to_float\<close> reports the overflow at
  the operation itself.
\<close>

text \<open>Rounding to the nearest integer, ties to even: Python's \<open>round(x)\<close> on a float.\<close>

definition round_half_even :: "rat \<Rightarrow> int" where
  "round_half_even x =
     (let f = \<lfloor>x\<rfloor>; d = x - of_int f
      in if d < 1 / 2 then f else if 1 / 2 < d then f + 1 else if even f then f else f + 1)"

text \<open>The binary exponent of a positive rational: \<open>2^e \<le> x < 2^(e + 1)\<close>.\<close>

definition floor_log2 :: "rat \<Rightarrow> int" where
  "floor_log2 x =
     (let e = bitlen (fst (quotient_of x)) - bitlen (snd (quotient_of x))
      in if 2 powi e \<le> x then e else e - 1)"

text \<open>The nearest binary64 value: 53 significant bits, exponent of the last bit at least
  \<open>- 1074\<close> (subnormal numbers).\<close>

definition float_round :: "rat \<Rightarrow> rat" where
  "float_round x =
     (if x = 0 then 0
      else let e = max (floor_log2 \<bar>x\<bar> - 52) (- 1074)
           in of_int (round_half_even (x / 2 powi e)) * 2 powi e)"

text \<open>A rounded value of binary exponent 1024 or more is out of the binary64 range.\<close>

definition to_float :: "rat \<Rightarrow> error + rat" where
  "to_float x =
     (let y = float_round x in if 1024 \<le> floor_log2 \<bar>y\<bar> then Inl OverflowError else Inr y)"

text \<open>A Python number: the odds are the \<open>int\<close> 1 or a float.\<close>

datatype pynum = PyInt int | PyFloat rat

text \<open>\<open>a / b\<close> on two integers.\<close>

definition py_truediv :: "int \<Rightarrow> int \<Rightarrow> error + rat" where
  "py_truediv a b = (if b = 0 then Inl ZeroDivisionError else to_float (of_int a / of_int b))"

text \<open>\<open>x + y\<close> on two floats.\<close>

definition float_add :: "rat \<Rightarrow> rat \<Rightarrow> error + rat" where
  "float_add x y = to_float (x + y)"

text \<open>\<open>points * payout\<close>, with \<open>points\<close> an integer.\<close>

definition py_mul :: "int \<Rightarrow> pynum \<Rightarrow> error + pynum" where
  "py_mul points payout =
     (case payout of
        PyInt k \<Rightarrow> Inr (PyInt (points * k))
      | PyFloat m \<Rightarrow>
          (case to_float (of_int points) of
             Inl e \<Rightarrow> Inl e
           | Inr p \<Rightarrow> (case to_float (p * m) of Inl e \<Rightarrow> Inl e | Inr x \<Rightarrow> Inr (PyFloat x))))"

text \<open>\<open>round(x)\<close>.\<close>

definition py_round :: "pynum \<Rightarrow> int" where
  "py_round x = (case x of PyInt k \<Rightarrow> k | PyFloat r \<Rightarrow> round_half_even r)"

text \<open>\<open>round(points * payout)\<close>, the amount credited to one winning bettor.\<close>

definition payout_amount :: "int \<Rightarrow> pynum \<Rightarrow> error + int" where
  "payout_amount points payout =
     (case py_mul points payout of Inl e \<Rightarrow> Inl e | Inr x \<Rightarrow> Inr (py_round x))"

subsection \<open>Strings of digits\<close>

text \<open>
  \<open>value.isdigit()\<close> and \<open>int(value)\<close> on the text typed into the wager modal. The text
  is a string of ASCII characters here.
\<close>

definition isdigit :: "string \<Rightarrow> bool" where
  "isdigit s = (s \<noteq> [] \<and> list_all (\<lambda>c. c \<in> set ''0123456789'') s)"

definition int_of_digits :: "string \<Rightarrow> int" where
  "int_of_digits s = foldl (\<lambda>n c. 10 * n + (of_char c - 48)) 0 s"

section \<open>The database\<close>

text \<open>
  Three tables: \<open>users(discordid, points)\<close>, \<open>predictions\<close> and
  \<open>prediction_bets(prediction_id, user_id, option, points)\<close>, the last one with at most
  one row for each \<open>(prediction_id, user_id)\<close>.
\<close>

datatype status = Active | Locked | Completed | Refunded

record prediction_row =
  row_id :: nat
  row_creator_id :: nat
  row_title :: string
  row_option_a :: string
  row_option_b :: string
  row_status :: status
  row_winner :: "string option"
  row_thread_id :: nat
  row_message_id :: nat

record bet_row =
  bet_prediction_id :: nat
  bet_user_id :: nat
  bet_option :: string
  bet_points :: int

record database =
  users :: "nat \<rightharpoonup> int"
  predictions_table :: "prediction_row list"
  prediction_bets :: "bet_row list"

text \<open>\<open>UPDATE users SET points = points + %s WHERE discordid = %s\<close>, for one
  \<open>(points, user_id)\<close>: a user without a row is left without one.\<close>

definition sql_add_points :: "(nat \<rightharpoonup> int) \<Rightarrow> int \<times> nat \<Rightarrow> (nat \<rightharpoonup> int)" where
  "sql_add_points us d =
     (case us (snd d) of None \<Rightarrow> us | Some b \<Rightarrow> us(snd d \<mapsto> b + fst d))"

text \<open>\<open>db.perform_many\<close> of that statement over a list of \<open>(points, user_id)\<close>.\<close>

definition perform_many_add :: "(nat \<rightharpoonup> int) \<Rightarrow> (int \<times> nat) list \<Rightarrow> (nat \<rightharpoonup> int)" where
  "perform_many_add us data = foldl sql_add_points us data"

text \<open>\<open>INSERT INTO users ... ON CONFLICT (discordid) DO UPDATE SET points = users.points +
  EXCLUDED.points\<close>, for one \<open>(user_id, points)\<close>.\<close>

definition sql_upsert_points :: "(nat \<rightharpoonup> int) \<Rightarrow> nat \<times> int \<Rightarrow> (nat \<rightharpoonup> int)" where
  "sql_upsert_points us d =
     (case us (fst d) of None \<Rightarrow> us(fst d \<mapsto> snd d) | Some b \<Rightarrow> us(fst d \<mapsto> b + snd d))"

definition perform_many_upsert :: "(nat \<rightharpoonup> int) \<Rightarrow> (nat \<times> int) list \<Rightarrow> (nat \<rightharpoonup> int)" where
  "perform_many_upsert us data = foldl sql_upsert_points us data"

text \<open>\<open>if winner:\<close> on an optional string.\<close>

definition truthy_str :: "string option \<Rightarrow> bool" where
  "truthy_str w = (case w of None \<Rightarrow> False | Some s \<Rightarrow> s \<noteq> [])"

definition update_prediction_status :: "database \<Rightarrow> nat \<Rightarrow> status \<Rightarrow> string option \<Rightarrow> database" where
  "update_prediction_status db prediction_id st winner =
     db\<lparr>predictions_table :=
          map (\<lambda>r. if row_id r = prediction_id
                    then (if truthy_str winner then r\<lparr>row_status := st, row_winner := winner\<rparr>
                          else r\<lparr>row_status := st\<rparr>)
                    else r)
              (predictions_table db)\<rparr>"

definition same_bet :: "nat \<Rightarrow> nat \<Rightarrow> bet_row \<Rightarrow> bool" where
  "same_bet prediction_id user_id r =
     (bet_prediction_id r = prediction_id \<and> bet_user_id r = user_id)"

text \<open>\<open>INSERT INTO prediction_bets ... ON CONFLICT (prediction_id, user_id) DO UPDATE SET
  points = prediction_bets.points + EXCLUDED.points\<close>.\<close>

definition place_bet_db :: "database \<Rightarrow> nat \<Rightarrow> nat \<Rightarrow> string \<Rightarrow> int \<Rightarrow> database" where
  "place_bet_db db prediction_id user_id option points =
     db\<lparr>prediction_bets :=
          (if filter (same_bet prediction_id user_id) (prediction_bets db) = []
           then prediction_bets db @
                [\<lparr>bet_prediction_id = prediction_id, bet_user_id = user_id,
                  bet_option = option, bet_points = points\<rparr>]
           else map (\<lambda>r. if same_bet prediction_id user_id r
                          then r\<lparr>bet_points := bet_points r + points\<rparr> else r)
                    (prediction_bets db))\<rparr>"

text \<open>\<open>SELECT user_id, option, points FROM prediction_bets WHERE prediction_id = %s\<close>.\<close>

definition get_bets_for_prediction :: "database \<Rightarrow> nat \<Rightarrow> (nat \<times> string \<times> int) list" where
  "get_bets_for_prediction db prediction_id =
     map (\<lambda>r. (bet_user_id r, bet_option r, bet_points r))
         (filter (\<lambda>r. bet_prediction_id r = prediction_id) (prediction_bets db))"

text \<open>\<open>SELECT ... FROM predictions WHERE status IN ('active', 'locked')\<close>.\<close>

definition get_restorable_predictions :: "database \<Rightarrow> prediction_row list" where
  "get_restorable_predictions db =
     filter (\<lambda>r. row_status r = Active \<or> row_status r = Locked) (predictions_table db)"

text \<open>\<open>SELECT points FROM users WHERE discordid = %s\<close> followed by
  \<open>result[0] if result else 0\<close>.\<close>

definition points_or_zero :: "database \<Rightarrow> nat \<Rightarrow> int" where
  "points_or_zero db user_id = (case users db user_id of None \<Rightarrow> 0 | Some p \<Rightarrow> p)"

section \<open>\<open>PredictionView\<close>: the bet ledger and the odds\<close>

text \<open>
  The view of one prediction holds the two ledgers \<open>option_a_points\<close> and
  \<open>option_b_points\<close> (user id to cumulative stake), the odds last computed by
  \<open>update_embed\<close> (attributes that do not exist before its first call), the \<open>locked\<close>
  flag and the database id of the prediction. \<open>items_disabled\<close> is the \<open>disabled\<close> state
  of its two buttons. Messages sent to the thread are not part of the state.
\<close>

record prediction_view =
  option_a :: string
  option_a_points :: "(nat, int) dict"
  option_b :: string
  option_b_points :: "(nat, int) dict"
  locked :: bool
  prediction_id :: "nat option"
  odds_a :: "pynum option"
  odds_b :: "pynum option"
  items_disabled :: bool

text \<open>\<open>PredictionView.__init__\<close>: a missing or empty dictionary argument gives an empty
  ledger; the buttons are created with \<open>disabled=locked\<close>.\<close>

definition PredictionView_init ::
  "string \<Rightarrow> string \<Rightarrow> nat option \<Rightarrow> (nat, int) dict option \<Rightarrow> (nat, int) dict option \<Rightarrow> bool
   \<Rightarrow> prediction_view" where
  "PredictionView_init a b pid a_points b_points lk =
     \<lparr>option_a = a,
      option_a_points = (case a_points of None \<Rightarrow> [] | Some d \<Rightarrow> d),
      option_b = b,
      option_b_points = (case b_points of None \<Rightarrow> [] | Some d \<Rightarrow> d),
      locked = lk,
      prediction_id = pid,
      odds_a = None,
      odds_b = None,
      items_disabled = lk\<rparr>"

text \<open>The odds of one side, as \<open>update_embed\<close> computes them:
  \<open>1 + (sum(opposite.values()) / sum(own.values())) if own else 1\<close>.\<close>

definition odds :: "(nat, int) dict \<Rightarrow> (nat, int) dict \<Rightarrow> error + pynum" where
  "odds own opposite =
     (if own \<noteq> [] then
        (case py_truediv (sum_values opposite) (sum_values own) of
           Inl e \<Rightarrow> Inl e
         | Inr q \<Rightarrow> (case float_add 1 q of Inl e \<Rightarrow> Inl e | Inr m \<Rightarrow> Inr (PyFloat m)))
      else Inr (PyInt 1))"

definition update_embed :: "prediction_view \<Rightarrow> error + prediction_view" where
  "update_embed v =
     (case odds (option_a_points v) (option_b_points v) of
        Inl e \<Rightarrow> Inl e
      | Inr oa \<Rightarrow>
          (case odds (option_b_points v) (option_a_points v) of
             Inl e \<Rightarrow> Inl e
           | Inr ob \<Rightarrow> Inr (v\<lparr>odds_a := Some oa, odds_b := Some ob\<rparr>)))"

text \<open>\<open>lock_view\<close>: \<open>self.locked = True\<close> and \<open>self.disable_all_items()\<close>.\<close>

definition lock_view :: "prediction_view \<Rightarrow> prediction_view" where
  "lock_view v = v\<lparr>locked := True, items_disabled := True\<rparr>"

definition on_timeout :: "prediction_view \<Rightarrow> prediction_view" where
  "on_timeout v = (if locked v then v else lock_view v)"

text \<open>The modal a button press opens: the option of the button and the balance read at
  that moment.\<close>

record prediction_modal =
  modal_option :: string
  user_points :: int

text \<open>\<open>button_callback\<close> of the button labelled \<open>label\<close>, pressed by \<open>user\<close>.\<close>

definition button_callback ::
  "prediction_view \<Rightarrow> database \<Rightarrow> nat \<Rightarrow> string \<Rightarrow> error + prediction_modal" where
  "button_callback v db user label =
     (if (label = option_a v \<and> dict_contains (option_b_points v) user) \<or>
         (label = option_b v \<and> dict_contains (option_a_points v) user)
      then Inl SideConflict
      else Inr \<lparr>modal_option = label, user_points = points_or_zero db user\<rparr>)"

text \<open>The first statement of \<open>modal_callback\<close>: the merge into the ledger of the option.\<close>

definition merge_bet :: "prediction_view \<Rightarrow> nat \<Rightarrow> int \<Rightarrow> string \<Rightarrow> prediction_view" where
  "merge_bet v user points option =
     (if option = option_a v
      then (let (prev, d) = dict_pop (option_a_points v) user 0
            in v\<lparr>option_a_points := dict_set d user (prev + points)\<rparr>)
      else (let (prev, d) = dict_pop (option_b_points v) user 0
            in v\<lparr>option_b_points := dict_set d user (prev + points)\<rparr>))"

text \<open>\<open>modal_callback(user, points, option)\<close>: merge, recompute the odds, debit the user,
  persist the bet when the view has its database id (\<open>if self.prediction_id:\<close> is false
  for \<open>None\<close> and for 0).\<close>

definition modal_callback ::
  "prediction_view \<Rightarrow> database \<Rightarrow> nat \<Rightarrow> int \<Rightarrow> string
   \<Rightarrow> error + (prediction_view \<times> database)" where
  "modal_callback v db user points option =
     (case update_embed (merge_bet v user points option) of
        Inl e \<Rightarrow> Inl e
      | Inr v' \<Rightarrow>
          (let db1 = db\<lparr>users := sql_add_points (users db) (- points, user)\<rparr>;
               db2 = (case prediction_id v' of
                        None \<Rightarrow> db1
                      | Some n \<Rightarrow> if n \<noteq> 0 then place_bet_db db1 n user option points else db1)
           in Inr (v', db2)))"

text \<open>\<open>PredictionModal.callback\<close>: the typed \<open>value\<close> is validated against the balance
  the modal was opened with, then forwarded to the view's \<open>modal_callback\<close>.\<close>

definition PredictionModal_callback ::
  "prediction_modal \<Rightarrow> prediction_view \<Rightarrow> database \<Rightarrow> nat \<Rightarrow> string
   \<Rightarrow> error + (prediction_view \<times> database)" where
  "PredictionModal_callback m v db user val =
     (if \<not> isdigit val then Inl NotANumber
      else let points = int_of_digits val
           in if points \<le> 0 then Inl NonPositiveWager
              else if user_points m < points then Inl InsufficientFunds
              else modal_callback v db user points (modal_option m))"

section \<open>\<open>Prediction\<close>: settlement\<close>

record prediction =
  pred_title :: string
  pred_option_a :: string
  pred_option_b :: string
  pred_thread :: nat
  db_id :: "nat option"
  view :: prediction_view

text \<open>\<open>create_prediction\<close>, on a new \<open>Prediction(title, option_a, option_b, thread)\<close>: a
  view with empty ledgers and no database id, whose embed is computed once.\<close>

definition create_prediction :: "string \<Rightarrow> string \<Rightarrow> string \<Rightarrow> nat \<Rightarrow> error + prediction" where
  "create_prediction t a b th =
     (case update_embed (PredictionView_init a b None None None False) of
        Inl e \<Rightarrow> Inl e
      | Inr v \<Rightarrow>
          Inr \<lparr>pred_title = t, pred_option_a = a, pred_option_b = b, pred_thread = th,
               db_id = None, view = v\<rparr>)"

text \<open>\<open>from_database\<close> keeps the ledgers and the lock flag read from the database until
  \<open>restore_view\<close> builds the view from them; here they are kept as that view, before its
  embed is computed.\<close>

definition from_database ::
  "nat \<Rightarrow> string \<Rightarrow> string \<Rightarrow> string \<Rightarrow> nat \<Rightarrow> (nat, int) dict \<Rightarrow> (nat, int) dict \<Rightarrow> bool
   \<Rightarrow> prediction" where
  "from_database i t a b th a_points b_points lk =
     \<lparr>pred_title = t, pred_option_a = a, pred_option_b = b, pred_thread = th,
      db_id = Some i,
      view = PredictionView_init a b (Some i) (Some a_points) (Some b_points) lk\<rparr>"

definition restore_view :: "prediction \<Rightarrow> error + prediction" where
  "restore_view p =
     (case update_embed (view p) of Inl e \<Rightarrow> Inl e | Inr v \<Rightarrow> Inr (p\<lparr>view := v\<rparr>))"

definition lock_prediction :: "prediction \<Rightarrow> prediction" where
  "lock_prediction p = (if locked (view p) then p else p\<lparr>view := lock_view (view p)\<rparr>)"

text \<open>\<open>[(points, user_id) for user_id, points in d.items()]\<close>.\<close>

definition stakes :: "(nat, int) dict \<Rightarrow> (int \<times> nat) list" where
  "stakes d = map (\<lambda>kv. (snd kv, fst kv)) d"

text \<open>\<open>[(round(points * payout), user_id) for user_id, points in d.items()]\<close>.\<close>

fun payouts :: "pynum \<Rightarrow> (nat, int) dict \<Rightarrow> error + (int \<times> nat) list" where
  "payouts payout [] = Inr []"
| "payouts payout (kv # d) =
     (case payout_amount (snd kv) payout of
        Inl e \<Rightarrow> Inl e
      | Inr c \<Rightarrow> (case payouts payout d of Inl e \<Rightarrow> Inl e | Inr rest \<Rightarrow> Inr ((c, fst kv) # rest)))"

text \<open>Reading \<open>self.view.odds_a\<close> or \<open>self.view.odds_b\<close>.\<close>

definition get_odds :: "pynum option \<Rightarrow> error + pynum" where
  "get_odds x = (case x of None \<Rightarrow> Inl AttributeError | Some m \<Rightarrow> Inr m)"

definition complete_prediction ::
  "prediction \<Rightarrow> database \<Rightarrow> string \<Rightarrow> error + (prediction \<times> database)" where
  "complete_prediction p db winner =
     (let v = view p in
      if option_a_points v = [] \<or> option_b_points v = [] then
        Inr (p\<lparr>view := lock_view v\<rparr>,
             db\<lparr>users := perform_many_add (users db)
                            (stakes (option_a_points v) @ stakes (option_b_points v))\<rparr>)
      else
        (case (if winner = pred_option_a p
               then (case get_odds (odds_a v) of
                       Inl e \<Rightarrow> Inl e | Inr payout \<Rightarrow> payouts payout (option_a_points v))
               else (case get_odds (odds_b v) of
                       Inl e \<Rightarrow> Inl e | Inr payout \<Rightarrow> payouts payout (option_b_points v))) of
           Inl e \<Rightarrow> Inl e
         | Inr data \<Rightarrow>
             Inr (p\<lparr>view := lock_view v\<rparr>, db\<lparr>users := perform_many_add (users db) data\<rparr>)))"

definition refund_prediction :: "prediction \<Rightarrow> database \<Rightarrow> prediction \<times> database" where
  "refund_prediction p db =
     (let v = view p in
      (p\<lparr>view := lock_view v\<rparr>,
       db\<lparr>users := perform_many_add (users db)
                      (stakes (option_a_points v) @ stakes (option_b_points v))\<rparr>))"

section \<open>The \<open>Points\<close> cog\<close>

text \<open>
  The cog holds the accrual buffer \<open>points_buffer\<close> and the registry \<open>predictions\<close>
  (creator id to open prediction). The platform is outside the program: the outcome of
  \<open>bot.fetch_channel\<close> for a thread id is a parameter of the recovery, with the two
  failures the code catches. Every other call to the platform (sending, editing and
  fetching a message) and every database statement is taken to succeed.
\<close>

record points_cog =
  points_buffer :: "(nat, int) dict"
  predictions :: "nat \<rightharpoonup> prediction"

datatype channel_fetch = Found | NotFound | Forbidden

definition refund_prediction_bets :: "database \<Rightarrow> nat \<Rightarrow> database" where
  "refund_prediction_bets db pid =
     (let bets = get_bets_for_prediction db pid
      in if bets = [] then db
         else db\<lparr>users := perform_many_add (users db)
                              (map (\<lambda>(user_id, _, points). (points, user_id)) bets)\<rparr>)"

text \<open>The loop of \<open>restore_predictions\<close> that sorts the bets of one prediction into the
  two ledgers.\<close>

definition ledgers_of_bets ::
  "string \<Rightarrow> (nat \<times> string \<times> int) list \<Rightarrow> (nat, int) dict \<times> (nat, int) dict" where
  "ledgers_of_bets a bets =
     foldl (\<lambda>(a_points, b_points) (user_id, option, points).
              if option = a then (dict_set a_points user_id points, b_points)
              else (a_points, dict_set b_points user_id points))
           ([], []) bets"

text \<open>The loop of \<open>restore_predictions\<close> over the rows read at its start. An exception
  raised while a view is restored leaves the loop.\<close>

fun restore_rows ::
  "(nat \<Rightarrow> channel_fetch) \<Rightarrow> prediction_row list \<Rightarrow> points_cog \<Rightarrow> database
   \<Rightarrow> error + (points_cog \<times> database)" where
  "restore_rows fetch_channel [] cog db = Inr (cog, db)"
| "restore_rows fetch_channel (row # rows) cog db =
     (case fetch_channel (row_thread_id row) of
        NotFound \<Rightarrow>
          restore_rows fetch_channel rows cog
            (update_prediction_status (refund_prediction_bets db (row_id row))
               (row_id row) Refunded None)
      | Forbidden \<Rightarrow>
          restore_rows fetch_channel rows cog
            (update_prediction_status (refund_prediction_bets db (row_id row))
               (row_id row) Refunded None)
      | Found \<Rightarrow>
          (let bets = get_bets_for_prediction db (row_id row);
               (a_points, b_points) = ledgers_of_bets (row_option_a row) bets
           in case restore_view
                     (from_database (row_id row) (row_title row) (row_option_a row)
                        (row_option_b row) (row_thread_id row) a_points b_points
                        (row_status row = Locked)) of
                Inl e \<Rightarrow> Inl e
              | Inr p \<Rightarrow>
                  restore_rows fetch_channel rows
                    (cog\<lparr>predictions := (predictions cog)(row_creator_id row \<mapsto> p)\<rparr>) db))"

definition restore_predictions ::
  "(nat \<Rightarrow> channel_fetch) \<Rightarrow> points_cog \<Rightarrow> database \<Rightarrow> error + (points_cog \<times> database)" where
  "restore_predictions fetch_channel cog db =
     restore_rows fetch_channel (get_restorable_predictions db) cog db"

text \<open>\<open>on_message\<close>: \<open>is_bot\<close> is \<open>user == self.bot.user or user.bot\<close>, and \<open>amount\<close> the
  value \<open>random.randint(7, 25)\<close> returned.\<close>

definition on_message :: "points_cog \<Rightarrow> nat \<Rightarrow> bool \<Rightarrow> int \<Rightarrow> points_cog" where
  "on_message cog user_id is_bot amount =
     (if is_bot then cog
      else cog\<lparr>points_buffer := dict_set (points_buffer cog) user_id amount\<rparr>)"

text \<open>
  \<open>update_points\<close> runs in two parts, around \<open>await db.perform_many(sql, data)\<close>: up to
  the await it returns early on an empty buffer, or copies the buffer into \<open>data\<close> and
  has it written; after the await it clears the buffer. Other handlers of the event loop
  can run between the two parts.
\<close>

definition update_points_write :: "points_cog \<Rightarrow> database \<Rightarrow> database option" where
  "update_points_write cog db =
     (if points_buffer cog = [] then None
      else Some (db\<lparr>users := perform_many_upsert (users db) (points_buffer cog)\<rparr>))"

definition update_points_clear :: "points_cog \<Rightarrow> points_cog" where
  "update_points_clear cog = cog\<lparr>points_buffer := []\<rparr>"

text \<open>\<open>update_points\<close> when nothing runs during the await.\<close>

definition update_points :: "points_cog \<Rightarrow> database \<Rightarrow> points_cog \<times> database" where
  "update_points cog db =
     (case update_points_write cog db of
        None \<Rightarrow> (cog, db)
      | Some db' \<Rightarrow> (update_points_clear cog, db'))"

text \<open>The points the \<open>balance\<close> command displays: \<open>user if user else ctx.user\<close> is the
  target.\<close>

definition balance :: "database \<Rightarrow> nat \<Rightarrow> nat option \<Rightarrow> int" where
  "balance db ctx_user user =
     points_or_zero db (case user of None \<Rightarrow> ctx_user | Some u \<Rightarrow> u)"

section \<open>Vocabulary of the properties\<close>

text \<open>
  The spec's OddsCalculator, in the spec's words: \<open>multiplier(ownPool, oppositePool)\<close>
  returns 1 if \<open>ownPool == 0\<close>, and \<open>1 + oppositePool/ownPool\<close> otherwise. It is compared
  with \<open>odds\<close>, which tests the ledger and not the pool.
\<close>

definition multiplier :: "int \<Rightarrow> int \<Rightarrow> error + pynum" where
  "multiplier own_pool opposite_pool =
     (if own_pool = 0 then Inr (PyInt 1)
      else (case py_truediv opposite_pool own_pool of
              Inl e \<Rightarrow> Inl e
            | Inr q \<Rightarrow> (case float_add 1 q of Inl e \<Rightarrow> Inl e | Inr m \<Rightarrow> Inr (PyFloat m))))"

text \<open>Every stake of a ledger is positive, as every amount the modal lets through is.\<close>

definition positive_stakes :: "(nat, int) dict \<Rightarrow> bool" where
  "positive_stakes d = list_all (\<lambda>kv. 0 < snd kv) d"

text \<open>The stake a ledger holds for a user: 0 for a user who is not in it.\<close>

definition stake_of :: "(nat, int) dict \<Rightarrow> nat \<Rightarrow> int" where
  "stake_of d u = (case map_of d u of None \<Rightarrow> 0 | Some s \<Rightarrow> s)"

definition total_stake :: "prediction_view \<Rightarrow> nat \<Rightarrow> int" where
  "total_stake v u = stake_of (option_a_points v) u + stake_of (option_b_points v) u"

text \<open>The two pools together.\<close>

definition pool_total :: "prediction_view \<Rightarrow> int" where
  "pool_total v = sum_values (option_a_points v) + sum_values (option_b_points v)"

text \<open>
  The state every operation of the view establishes and keeps: no user twice in a ledger
  (the ledgers are dictionaries), positive stakes only, and the stored odds are those of
  the ledgers (\<open>update_embed\<close> would change nothing).
\<close>

definition view_inv :: "prediction_view \<Rightarrow> bool" where
  "view_inv v =
     (distinct (map fst (option_a_points v)) \<and> distinct (map fst (option_b_points v)) \<and>
      positive_stakes (option_a_points v) \<and> positive_stakes (option_b_points v) \<and>
      update_embed v = Inr v)"

text \<open>The values the odds take while the pools stay within \<open>2^63\<close>: the \<open>int\<close> 1 or a
  float between 0 and \<open>2^64\<close>.\<close>

definition odds_in_range :: "pynum \<Rightarrow> bool" where
  "odds_in_range m = (case m of PyInt k \<Rightarrow> k = 1 | PyFloat r \<Rightarrow> 0 \<le> r \<and> r \<le> 2 ^ 64)"

text \<open>The ledger \<open>modal_callback\<close> merges a bet on \<open>option\<close> into.\<close>

definition ledger_of :: "prediction_view \<Rightarrow> string \<Rightarrow> (nat, int) dict" where
  "ledger_of v option = (if option = option_a v then option_a_points v else option_b_points v)"

text \<open>What a list of \<open>(points, user_id)\<close> updates adds to the balance of one user.\<close>

definition credited :: "(int \<times> nat) list \<Rightarrow> nat \<Rightarrow> int" where
  "credited data u = sum_list (map fst (filter (\<lambda>d. snd d = u) data))"



text \<open>A run of wagers, each one a call \<open>modal_callback(user, points, option)\<close>; the first
  exception ends the run.\<close>

fun place_bets ::
  "prediction_view \<Rightarrow> database \<Rightarrow> (nat \<times> int \<times> string) list
   \<Rightarrow> error + (prediction_view \<times> database)" where
  "place_bets v db [] = Inr (v, db)"
| "place_bets v db (bet # bets) =
     (case modal_callback v db (fst bet) (fst (snd bet)) (snd (snd bet)) of
        Inl e \<Rightarrow> Inl e
      | Inr (v', db') \<Rightarrow> place_bets v' db' bets)"

text \<open>The recovery: a row is unreachable when \<open>fetch_channel\<close> raises for its thread;
  \<open>stake_in_bets\<close> is what the persisted bets of one prediction hold for a user, and
  \<open>refund_total\<close> the sum of it over the unreachable rows of a list.\<close>

definition unreachable :: "(nat \<Rightarrow> channel_fetch) \<Rightarrow> prediction_row \<Rightarrow> bool" where
  "unreachable fetch_channel row = (fetch_channel (row_thread_id row) \<noteq> Found)"

definition stake_in_bets :: "bet_row list \<Rightarrow> nat \<Rightarrow> nat \<Rightarrow> int" where
  "stake_in_bets rows pid u = sum_list (map bet_points (filter (same_bet pid u) rows))"

definition refund_total ::
  "(nat \<Rightarrow> channel_fetch) \<Rightarrow> bet_row list \<Rightarrow> prediction_row list \<Rightarrow> nat \<Rightarrow> int" where
  "refund_total fetch_channel bets rows u =
     sum_list (map (\<lambda>row. stake_in_bets bets (row_id row) u) (filter (unreachable fetch_channel) rows))"

text \<open>A row with its status set to \<open>Refunded\<close> when its id is one of \<open>ids\<close>.\<close>

definition mark_refunded :: "nat set \<Rightarrow> prediction_row \<Rightarrow> prediction_row" where
  "mark_refunded ids r = (if row_id r \<in> ids then r\<lparr>row_status := Refunded\<rparr> else r)"

text \<open>Persisted bets as the program writes them: positive points, at most \<open>2^63\<close> in
  all.\<close>

definition positive_bets :: "database \<Rightarrow> bool" where
  "positive_bets db =
     (list_all (\<lambda>r. 0 < bet_points r) (prediction_bets db) \<and>
      sum_list (map bet_points (prediction_bets db)) \<le> 2 ^ 63)"

subsection \<open>Concrete states\<close>

text \<open>The view of a prediction on A or B that has just been started: the view
  \<open>create_prediction\<close> builds, with the database id 1.\<close>

definition fresh_view :: prediction_view where
  "fresh_view =
     (PredictionView_init ''A'' ''B'' None None None False)
       \<lparr>odds_a := Some (PyInt 1), odds_b := Some (PyInt 1), prediction_id := Some 1\<rparr>"

definition no_users_db :: database where
  "no_users_db = \<lparr>users = Map.empty, predictions_table = [], prediction_bets = []\<rparr>"

definition one_user_db :: database where
  "one_user_db = \<lparr>users = [7 \<mapsto> 100], predictions_table = [], prediction_bets = []\<rparr>"

definition two_users_db :: database where
  "two_users_db = \<lparr>users = [11 \<mapsto> 500, 12 \<mapsto> 500], predictions_table = [], prediction_bets = []\<rparr>"

definition busy_cog :: points_cog where
  "busy_cog = \<lparr>points_buffer = [(1, 10)], predictions = Map.empty\<rparr>"

definition idle_cog :: points_cog where
  "idle_cog = \<lparr>points_buffer = [], predictions = Map.empty\<rparr>"

definition prediction_of :: "prediction_view \<Rightarrow> prediction" where
  "prediction_of v =
     \<lparr>pred_title = ''T'', pred_option_a = ''A'', pred_option_b = ''B'', pred_thread = 9,
      db_id = Some 1, view = v\<rparr>"


definition locked_row :: prediction_row where
  "locked_row =
     \<lparr>row_id = 3, row_creator_id = 8, row_title = ''T'', row_option_a = ''A'',
      row_option_b = ''B'', row_status = Locked, row_winner = None, row_thread_id = 77,
      row_message_id = 78\<rparr>"

definition recovery_db :: database where
  "recovery_db =
     \<lparr>users = [11 \<mapsto> 0, 12 \<mapsto> 10],
      predictions_table = [locked_row],
      prediction_bets =
        [\<lparr>bet_prediction_id = 3, bet_user_id = 11, bet_option = ''A'', bet_points = 100\<rparr>,
         \<lparr>bet_prediction_id = 3, bet_user_id = 12, bet_option = ''B'', bet_points = 50\<rparr>]\<rparr>"

section \<open>Float rounding\<close>

text \<open>
  \<open>floor_log2\<close> is the binary exponent, rounding never leaves a binade upwards past the
  next power of two, and a value of at most \<open>2^k\<close> with \<open>k < 1024\<close> does not overflow.
\<close>

lemma floor_log2_bounds:
  assumes "0 < x"
  shows "2 powi floor_log2 x \<le> x \<and> x < 2 powi (floor_log2 x + 1)"
proof -
  obtain n d where q: "quotient_of x = (n, d)" by (cases "quotient_of x")
  from quotient_of_denom_pos[OF q] have d: "0 < d" .
  from quotient_of_div[OF q] have x: "x = of_int n / of_int d" .
  with assms d have n: "0 < n" by (simp add: zero_less_divide_iff)
  define a where "a = bitlen n"
  define b where "b = bitlen d"
  from bitlen_bounds[OF n] have na: "2 ^ nat (a - 1) \<le> n" "n < 2 ^ nat a"
    by (simp_all add: a_def)
  from bitlen_bounds[OF d] have db: "2 ^ nat (b - 1) \<le> d" "d < 2 ^ nat b"
    by (simp_all add: b_def)
  have a1: "1 \<le> a" using n bitlen_eq_zero_iff[of n] bitlen_nonneg[of n] by (simp add: a_def)
  have b1: "1 \<le> b" using d bitlen_eq_zero_iff[of d] bitlen_nonneg[of d] by (simp add: b_def)
  have pa: "(2::rat) powi (a - 1) \<le> of_int n" "of_int n < (2::rat) powi a"
  proof -
    have "(2::rat) powi (a - 1) = of_int (2 ^ nat (a - 1))"
      using a1 by (simp add: power_int_def)
    also have "\<dots> \<le> of_int n" using na(1) by (simp only: of_int_le_iff)
    finally show "(2::rat) powi (a - 1) \<le> of_int n" .
    have "(of_int n :: rat) < of_int (2 ^ nat a)" using na(2) by (simp only: of_int_less_iff)
    also have "\<dots> = 2 powi a" using a1 by (simp add: power_int_def)
    finally show "of_int n < (2::rat) powi a" .
  qed
  have pb: "(2::rat) powi (b - 1) \<le> of_int d" "of_int d < (2::rat) powi b"
  proof -
    have "(2::rat) powi (b - 1) = of_int (2 ^ nat (b - 1))"
      using b1 by (simp add: power_int_def)
    also have "\<dots> \<le> of_int d" using db(1) by (simp only: of_int_le_iff)
    finally show "(2::rat) powi (b - 1) \<le> of_int d" .
    have "(of_int d :: rat) < of_int (2 ^ nat b)" using db(2) by (simp only: of_int_less_iff)
    also have "\<dots> = 2 powi b" using b1 by (simp add: power_int_def)
    finally show "of_int d < (2::rat) powi b" .
  qed
  have dpos: "(0::rat) < of_int d" using d by simp
  have upper: "x < 2 powi (a - b + 1)"
  proof -
    have "x * of_int d = of_int n" using x dpos by simp
    also have "\<dots> < 2 powi a" by (rule pa(2))
    also have "\<dots> = 2 powi (a - b + 1) * 2 powi (b - 1)"
      by (simp flip: power_int_add)
    also have "\<dots> \<le> 2 powi (a - b + 1) * of_int d"
      using pb(1) by (intro mult_left_mono) simp_all
    finally show ?thesis using dpos by simp
  qed
  have lower: "2 powi (a - b - 1) \<le> x"
  proof -
    have "2 powi (a - b - 1) * of_int d \<le> 2 powi (a - b - 1) * (2::rat) powi b"
      using pb(2) by (intro mult_left_mono) simp_all
    also have "\<dots> = 2 powi (a - 1)" by (simp flip: power_int_add)
    also have "\<dots> \<le> of_int n" by (rule pa(1))
    also have "\<dots> = x * of_int d" using x dpos by simp
    finally show ?thesis using dpos by simp
  qed
  show ?thesis
  proof (cases "2 powi (a - b) \<le> x")
    case True
    then have "floor_log2 x = a - b" by (simp add: floor_log2_def q a_def b_def)
    with True upper show ?thesis by simp
  next
    case False
    then have "floor_log2 x = a - b - 1" by (simp add: floor_log2_def q a_def b_def)
    with False lower show ?thesis by simp
  qed
qed

lemma floor_log2_less:
  assumes "0 < x" "x < 2 powi k"
  shows "floor_log2 x < k"
proof (rule ccontr)
  assume "\<not> floor_log2 x < k"
  then have "(2::rat) powi k \<le> 2 powi floor_log2 x"
    by (intro power_int_increasing) simp_all
  with floor_log2_bounds[OF assms(1)] assms(2) show False by simp
qed

lemma floor_log2_le:
  assumes "0 < x" "x \<le> 2 powi k"
  shows "floor_log2 x \<le> k"
proof (rule ccontr)
  assume "\<not> floor_log2 x \<le> k"
  then have "(2::rat) powi k < 2 powi floor_log2 x"
    by (intro power_int_strict_increasing) simp_all
  with floor_log2_bounds[OF assms(1)] assms(2) show False by simp
qed

lemma floor_log2_zero: "floor_log2 0 = - 2"
  by code_simp

lemma round_half_even_le:
  assumes "x \<le> of_int n"
  shows "round_half_even x \<le> n"
proof -
  from assms have f: "\<lfloor>x\<rfloor> \<le> n" by (simp add: floor_le_iff)
  show ?thesis
  proof (cases "x = of_int \<lfloor>x\<rfloor>")
    case True
    then have "x - of_int \<lfloor>x\<rfloor> = 0" by simp
    then have "round_half_even x = \<lfloor>x\<rfloor>" by (simp add: round_half_even_def Let_def)
    with f show ?thesis by simp
  next
    case False
    then have ne: "of_int \<lfloor>x\<rfloor> \<noteq> x" by (rule not_sym)
    have "of_int \<lfloor>x\<rfloor> < x"
      by (rule order.not_eq_order_implies_strict[OF ne of_int_floor_le])
    with assms have "(of_int \<lfloor>x\<rfloor> :: rat) < of_int n" by simp
    then have "\<lfloor>x\<rfloor> < n" by (simp only: of_int_less_iff)
    then show ?thesis by (auto simp: round_half_even_def Let_def)
  qed
qed

lemma round_half_even_ge:
  assumes "of_int n \<le> x"
  shows "n \<le> round_half_even x"
proof -
  from assms have "n \<le> \<lfloor>x\<rfloor>" by (simp add: le_floor_iff)
  then show ?thesis by (auto simp: round_half_even_def Let_def)
qed

lemma round_half_even_of_int: "round_half_even (of_int n) = n"
  by (simp add: round_half_even_def)

lemma float_round_bounds:
  assumes "0 \<le> x" "x \<le> 2 powi k" "- 1074 \<le> k"
  shows "0 \<le> float_round x \<and> float_round x \<le> 2 powi k"
proof (cases "x = 0")
  case True
  then show ?thesis by (simp add: float_round_def)
next
  case False
  with assms(1) have pos: "0 < x" by simp
  define e where "e = max (floor_log2 \<bar>x\<bar> - 52) (- 1074)"
  have fr: "float_round x = of_int (round_half_even (x / 2 powi e)) * 2 powi e"
    using False by (simp add: float_round_def e_def Let_def)
  have "floor_log2 x \<le> k" by (rule floor_log2_le[OF pos assms(2)])
  with assms(3) pos have ek: "e \<le> k" by (simp add: e_def)
  have split: "(2::rat) powi k = of_int (2 ^ nat (k - e)) * 2 powi e"
  proof -
    have "(2::rat) powi k = 2 powi (k - e) * 2 powi e" by (simp flip: power_int_add)
    also have "(2::rat) powi (k - e) = of_int (2 ^ nat (k - e))"
      using ek by (simp add: power_int_def)
    finally show ?thesis .
  qed
  have p2: "(0::rat) < 2 powi e" by simp
  have "x / 2 powi e \<le> of_int (2 ^ nat (k - e))"
    using assms(2) p2 by (simp add: split pos_divide_le_eq)
  then have "round_half_even (x / 2 powi e) \<le> 2 ^ nat (k - e)"
    by (rule round_half_even_le)
  then have "(of_int (round_half_even (x / 2 powi e)) :: rat) \<le> of_int (2 ^ nat (k - e))"
    by (simp only: of_int_le_iff)
  then have up: "float_round x \<le> 2 powi k"
    unfolding fr split using p2 by (intro mult_right_mono) simp_all
  have "(of_int 0 :: rat) \<le> x / 2 powi e" using pos by simp
  then have "0 \<le> round_half_even (x / 2 powi e)" by (rule round_half_even_ge)
  then have "0 \<le> float_round x" unfolding fr by simp
  with up show ?thesis by simp
qed

lemma to_float_ok:
  assumes "0 \<le> x" "x \<le> 2 powi k" "- 1074 \<le> k" "k < 1024"
  shows "to_float x = Inr (float_round x)"
proof -
  note b = float_round_bounds[OF assms(1-3)]
  have "floor_log2 \<bar>float_round x\<bar> < 1024"
  proof (cases "float_round x = 0")
    case True
    then show ?thesis by (simp add: floor_log2_zero)
  next
    case False
    with b have pos: "0 < float_round x" by simp
    have "float_round x < 2 powi 1024"
    proof -
      have "float_round x \<le> 2 powi k" using b by simp
      also have "\<dots> < 2 powi 1024" using assms(4) by (intro power_int_strict_increasing) simp_all
      finally show ?thesis .
    qed
    from floor_log2_less[OF pos this] pos show ?thesis by simp
  qed
  then show ?thesis by (simp add: to_float_def)
qed

section \<open>The odds\<close>

lemma sum_values_nonneg: "positive_stakes d \<Longrightarrow> 0 \<le> sum_values d"
  by (induction d) (auto simp: positive_stakes_def sum_values_def)

lemma sum_values_pos: "positive_stakes d \<Longrightarrow> d \<noteq> [] \<Longrightarrow> 0 < sum_values d"
  using sum_values_nonneg[of "tl d"]
  by (cases d) (auto simp: positive_stakes_def sum_values_def)

lemma multiplier_100_300: "multiplier 100 300 = Inr (PyFloat 4)"
  by code_simp

text \<open>
  C4. On a ledger of positive stakes the pool of a side is 0 exactly when the side has no
  bettor, and the odds \<open>update_embed\<close> computes for the side are the spec's multiplier of
  the two pools: 1 for an empty own pool, \<open>1 + oppositePool/ownPool\<close> (in float
  arithmetic) otherwise. \<open>multiplier(100, 300)\<close> is 4.0, and \<open>multiplier(0, b)\<close> is 1 for
  every \<open>b\<close>.
\<close>

theorem odds_multiplier:
  "positive_stakes own \<Longrightarrow>
     odds own opposite = multiplier (sum_values own) (sum_values opposite) \<and>
     (sum_values own = 0 \<longleftrightarrow> own = []) \<and>
     multiplier 0 b = Inr (PyInt 1) \<and>
     multiplier 100 300 = Inr (PyFloat 4)"
proof -
  assume pos: "positive_stakes own"
  have zero: "sum_values own = 0 \<longleftrightarrow> own = []"
    using sum_values_pos[OF pos] by (cases "own = []") (simp_all add: sum_values_def)
  have "odds own opposite = multiplier (sum_values own) (sum_values opposite)"
    using zero by (simp add: odds_def multiplier_def)
  moreover have "multiplier 0 b = Inr (PyInt 1)"
    by (simp add: multiplier_def)
  ultimately show ?thesis
    using zero multiplier_100_300 by blast
qed

theorem odds_multiplier_witness:
  "positive_stakes [(1, 100)] \<and> odds [(1, 100)] [(2, 300)] = Inr (PyFloat 4) \<and>
   odds [] [(2, 300)] = Inr (PyInt 1)"
proof -
  have p: "positive_stakes [(1::nat, 100::int)]" by (simp add: positive_stakes_def)
  have e: "positive_stakes ([]::(nat, int) dict)" by (simp add: positive_stakes_def)
  from odds_multiplier[OF p, of "[(2, 300)]"] odds_multiplier[OF e, of "[(2, 300)]" 0] p
  show ?thesis by (simp add: sum_values_def)
qed

text \<open>With pools of at most \<open>2^63\<close> the odds and the payouts raise no exception.\<close>

lemma odds_value:
  assumes own: "positive_stakes own" and opp: "positive_stakes opp"
    and bound: "sum_values opp \<le> 2 ^ 63"
  shows "\<exists>m. odds own opp = Inr m \<and> odds_in_range m"
proof (cases "own = []")
  case True
  then show ?thesis by (simp add: odds_def odds_in_range_def)
next
  case False
  from sum_values_pos[OF own False] have s: "0 < sum_values own" .
  from sum_values_nonneg[OF opp] have t: "0 \<le> sum_values opp" .
  define q :: rat where "q = of_int (sum_values opp) / of_int (sum_values own)"
  have q0: "0 \<le> q" using s t by (simp add: q_def)
  have "q \<le> of_int (sum_values opp)"
  proof -
    have "(1::rat) \<le> of_int (sum_values own)" using s by simp
    then show ?thesis using t s by (simp add: q_def pos_divide_le_eq mult_le_cancel_left1)
  qed
  also have "(of_int (sum_values opp) :: rat) \<le> of_int (2 ^ 63)"
    using bound by (simp only: of_int_le_iff)
  finally have q63: "q \<le> 2 powi 63" by simp
  have tq: "to_float q = Inr (float_round q)"
    by (rule to_float_ok[OF q0 q63]) simp_all
  from float_round_bounds[OF q0 q63] have fr: "0 \<le> float_round q" "float_round q \<le> 2 powi 63"
    by simp_all
  have a0: "0 \<le> 1 + float_round q" using fr by simp
  have "1 + float_round q \<le> 2 powi 63 + 2 powi 63" using fr by (simp add: add_mono)
  then have a64: "1 + float_round q \<le> 2 powi 64" by simp
  have ta: "to_float (1 + float_round q) = Inr (float_round (1 + float_round q))"
    by (rule to_float_ok[OF a0 a64]) simp_all
  from float_round_bounds[OF a0 a64] have
    "0 \<le> float_round (1 + float_round q)" "float_round (1 + float_round q) \<le> 2 ^ 64"
    by simp_all
  moreover have "odds own opp = Inr (PyFloat (float_round (1 + float_round q)))"
    using False s tq ta by (simp add: odds_def py_truediv_def float_add_def q_def)
  ultimately show ?thesis by (simp add: odds_in_range_def)
qed



lemma update_embed_returns:
  assumes "positive_stakes (option_a_points v)" "positive_stakes (option_b_points v)"
    and "pool_total v \<le> 2 ^ 63"
  shows "\<exists>v'. update_embed v = Inr v' \<and> update_embed v' = Inr v' \<and>
           (\<exists>oa ob. odds_a v' = Some oa \<and> odds_in_range oa \<and>
                     odds_b v' = Some ob \<and> odds_in_range ob)"
proof -
  from sum_values_nonneg[OF assms(1)] sum_values_nonneg[OF assms(2)] assms(3) have
    b: "sum_values (option_a_points v) \<le> 2 ^ 63" "sum_values (option_b_points v) \<le> 2 ^ 63"
    by (simp_all add: pool_total_def)
  from odds_value[OF assms(1,2) b(2)] obtain oa where
    oa: "odds (option_a_points v) (option_b_points v) = Inr oa" "odds_in_range oa" by blast
  from odds_value[OF assms(2,1) b(1)] obtain ob where
    ob: "odds (option_b_points v) (option_a_points v) = Inr ob" "odds_in_range ob" by blast
  from oa ob show ?thesis by (simp add: update_embed_def)
qed

section \<open>Credits to the \<open>users\<close> table\<close>

lemma sql_add_points_apply:
  "sql_add_points us d u = map_option (\<lambda>b. b + (if snd d = u then fst d else 0)) (us u)"
  by (cases "us u"; cases "us (snd d)") (auto simp: sql_add_points_def)

lemma perform_many_add_credited:
  "perform_many_add us data u = map_option (\<lambda>b. b + credited data u) (us u)"
proof (induction data arbitrary: us)
  case Nil
  then show ?case by (simp add: perform_many_add_def credited_def option.map_ident)
next
  case (Cons d data)
  have "perform_many_add us (d # data) u = perform_many_add (sql_add_points us d) data u"
    by (simp add: perform_many_add_def)
  also have "\<dots> = map_option (\<lambda>b. b + credited data u) (sql_add_points us d u)"
    by (rule Cons.IH)
  also have "\<dots> = map_option (\<lambda>b. b + credited (d # data) u) (us u)"
    by (cases "us u") (auto simp: sql_add_points_apply credited_def)
  finally show ?case .
qed

lemma credited_append: "credited (xs @ ys) u = credited xs u + credited ys u"
  by (simp add: credited_def)

lemma credited_stakes:
  "distinct (map fst d) \<Longrightarrow> credited (stakes d) u = stake_of d u"
proof (induction d)
  case Nil
  then show ?case by (simp add: credited_def stakes_def stake_of_def)
next
  case (Cons kv d)
  have notin: "fst kv \<notin> fst ` set d" using Cons.prems by simp
  have ih: "credited (stakes d) u = stake_of d u" using Cons by simp
  show ?case
  proof (cases "fst kv = u")
    case True
    then have "map_of d u = None" using notin by (simp add: map_of_eq_None_iff)
    then have "stake_of d u = 0" by (simp add: stake_of_def)
    with ih True show ?thesis
      by (cases kv) (simp add: credited_def stakes_def stake_of_def)
  next
    case False
    with ih show ?thesis
      by (cases kv) (auto simp: credited_def stakes_def stake_of_def)
  qed
qed

section \<open>Wagers\<close>

subsection \<open>The merge into a ledger\<close>

lemma merge_dict:
  "map_of (dict_set (snd (dict_pop d user 0)) user (fst (dict_pop d user 0) + points))
     = (map_of d)(user \<mapsto> stake_of d user + points)"
  by (auto simp: dict_set_def dict_pop_def stake_of_def update_conv' delete_conv'
        split: option.splits)

lemma merge_dict_distinct:
  "distinct (map fst d) \<Longrightarrow>
     distinct (map fst (dict_set (snd (dict_pop d user 0)) user (fst (dict_pop d user 0) + points)))"
  by (auto simp: dict_set_def dict_pop_def distinct_update distinct_delete split: option.splits)

lemma merge_bet_a:
  "option = option_a v \<Longrightarrow>
     map_of (option_a_points (merge_bet v user points option))
       = (map_of (option_a_points v))(user \<mapsto> stake_of (option_a_points v) user + points) \<and>
     option_b_points (merge_bet v user points option) = option_b_points v"
  using merge_dict[of "option_a_points v" user points]
  by (simp add: merge_bet_def split_beta)

lemma merge_bet_b:
  "option \<noteq> option_a v \<Longrightarrow>
     map_of (option_b_points (merge_bet v user points option))
       = (map_of (option_b_points v))(user \<mapsto> stake_of (option_b_points v) user + points) \<and>
     option_a_points (merge_bet v user points option) = option_a_points v"
  using merge_dict[of "option_b_points v" user points]
  by (simp add: merge_bet_def split_beta)

lemma merge_bet_total:
  "total_stake (merge_bet v user points option) u
     = total_stake v u + (if u = user then points else 0)"
  using merge_bet_a[of option v user points] merge_bet_b[of option v user points]
  by (cases "option = option_a v") (auto simp: total_stake_def stake_of_def)

lemma merge_bet_distinct:
  "distinct (map fst (option_a_points v)) \<Longrightarrow> distinct (map fst (option_b_points v)) \<Longrightarrow>
     distinct (map fst (option_a_points (merge_bet v user points option))) \<and>
     distinct (map fst (option_b_points (merge_bet v user points option)))"
  using merge_dict_distinct[of "option_a_points v" user points]
    merge_dict_distinct[of "option_b_points v" user points]
  by (simp add: merge_bet_def split_beta)

lemma update_absent: "k \<notin> fst ` set al \<Longrightarrow> AList.update k v al = al @ [(k, v)]"
  by (induction al) auto

lemma merge_dict_single:
  "filter (\<lambda>kv. fst kv = user)
     (dict_set (snd (dict_pop d user 0)) user (fst (dict_pop d user 0) + points))
   = [(user, stake_of d user + points)]"
proof -
  have absent: "user \<notin> fst ` set (snd (dict_pop d user (0::int)))"
    using delete_notin_dom[of user d]
    by (auto simp: dict_pop_def map_of_eq_None_iff split: option.splits)
  then have "filter (\<lambda>kv. fst kv = user) (snd (dict_pop d user (0::int))) = []"
    by (auto simp: filter_empty_conv)
  moreover have "fst (dict_pop d user (0::int)) = stake_of d user"
    by (simp add: dict_pop_def stake_of_def split: option.splits)
  ultimately show ?thesis
    using absent by (simp add: dict_set_def update_absent)
qed

lemma merge_bet_ledger:
  "filter (\<lambda>kv. fst kv = user) (ledger_of (merge_bet v user points option) option)
     = [(user, stake_of (ledger_of v option) user + points)]"
proof (cases "option = option_a v")
  case True
  then show ?thesis
    using merge_dict_single[of user "option_a_points v" points]
    by (simp add: merge_bet_def ledger_of_def split_beta)
next
  case False
  then show ?thesis
    using merge_dict_single[of user "option_b_points v" points]
    by (simp add: merge_bet_def ledger_of_def split_beta)
qed

lemma merge_bet_fields:
  "option_a (merge_bet v user points option) = option_a v \<and>
   prediction_id (merge_bet v user points option) = prediction_id v"
  by (simp add: merge_bet_def split_beta)

lemma stake_of_filter:
  "filter (\<lambda>kv. fst kv = user) d = [(user, s)] \<Longrightarrow> stake_of d user = s"
proof (induction d)
  case Nil
  then show ?case by simp
next
  case (Cons kv d)
  then show ?case by (cases kv) (auto simp: stake_of_def split: if_splits)
qed

lemma stake_of_nonneg: "positive_stakes d \<Longrightarrow> 0 \<le> stake_of d u"
proof (induction d)
  case Nil
  then show ?case by (simp add: stake_of_def)
next
  case (Cons kv d)
  then show ?case by (cases kv) (auto simp: stake_of_def positive_stakes_def)
qed

lemma positive_stakes_delete: "positive_stakes d \<Longrightarrow> positive_stakes (AList.delete k d)"
  by (induction d) (auto simp: positive_stakes_def)

lemma positive_stakes_update:
  "positive_stakes d \<Longrightarrow> 0 < x \<Longrightarrow> positive_stakes (AList.update k x d)"
  by (induction d) (auto simp: positive_stakes_def)

lemma sum_values_delete:
  "distinct (map fst d) \<Longrightarrow> sum_values (AList.delete k d) = sum_values d - stake_of d k"
proof (induction d)
  case Nil
  then show ?case by (simp add: sum_values_def stake_of_def)
next
  case (Cons kv d)
  then have ih: "sum_values (AList.delete k d) = sum_values d - stake_of d k"
    and notin: "fst kv \<notin> fst ` set d" by simp_all
  show ?case
  proof (cases "fst kv = k")
    case True
    with notin have "map_of d k = None" by (simp add: map_of_eq_None_iff)
    then have "stake_of d k = 0" by (simp add: stake_of_def)
    with ih True show ?thesis by (cases kv) (simp add: sum_values_def stake_of_def)
  next
    case False
    with ih show ?thesis by (cases kv) (auto simp: sum_values_def stake_of_def)
  qed
qed

lemma merge_dict_sum:
  fixes d :: "(nat, int) dict"
  assumes "distinct (map fst d)"
  shows "sum_values (dict_set (snd (dict_pop d user 0)) user (fst (dict_pop d user 0) + points))
           = sum_values d + points"
proof (cases "map_of d user")
  case None
  then have "user \<notin> fst ` set d" by (simp add: map_of_eq_None_iff)
  with None show ?thesis
    by (simp add: dict_pop_def dict_set_def update_absent sum_values_def)
next
  case (Some s)
  have "user \<notin> fst ` set (AList.delete user d)" by (rule delete_notin_dom)
  then have "sum_values (AList.update user (s + points) (AList.delete user d))
               = sum_values (AList.delete user d) + (s + points)"
    by (simp add: update_absent sum_values_def)
  with Some sum_values_delete[OF assms, of user] show ?thesis
    by (simp add: dict_pop_def dict_set_def stake_of_def)
qed

lemma merge_dict_positive:
  assumes "positive_stakes d" "0 < points"
  shows "positive_stakes (dict_set (snd (dict_pop d user 0)) user (fst (dict_pop d user 0) + points))"
proof -
  have "0 \<le> fst (dict_pop d user 0)"
    using stake_of_nonneg[OF assms(1), of user]
    by (simp add: dict_pop_def stake_of_def split: option.splits)
  moreover have "positive_stakes (snd (dict_pop d user 0))"
    using assms(1) by (simp add: dict_pop_def positive_stakes_delete split: option.splits)
  ultimately show ?thesis
    using assms(2) by (simp add: dict_set_def positive_stakes_update)
qed

lemma merge_bet_inv:
  assumes "distinct (map fst (option_a_points v))" "distinct (map fst (option_b_points v))"
    and "positive_stakes (option_a_points v)" "positive_stakes (option_b_points v)"
    and "0 < points"
  shows "positive_stakes (option_a_points (merge_bet v user points option)) \<and>
         positive_stakes (option_b_points (merge_bet v user points option)) \<and>
         pool_total (merge_bet v user points option) = pool_total v + points"
  using assms merge_dict_sum[of "option_a_points v" user points]
    merge_dict_sum[of "option_b_points v" user points]
    merge_dict_positive[of "option_a_points v" points user]
    merge_dict_positive[of "option_b_points v" points user]
  by (simp add: merge_bet_def split_beta pool_total_def)

subsection \<open>\<open>modal_callback\<close>\<close>

lemma update_embed_ledgers:
  "update_embed v = Inr v' \<Longrightarrow>
     option_a_points v' = option_a_points v \<and> option_b_points v' = option_b_points v \<and>
     option_a v' = option_a v \<and> option_b v' = option_b v \<and>
     prediction_id v' = prediction_id v \<and> locked v' = locked v \<and>
     items_disabled v' = items_disabled v"
  by (auto simp: update_embed_def split: sum.splits)

lemma update_embed_idem:
  assumes "update_embed v = Inr v'"
  shows "update_embed v' = Inr v'"
proof -
  from assms obtain oa ob where
    "odds (option_a_points v) (option_b_points v) = Inr oa"
    "odds (option_b_points v) (option_a_points v) = Inr ob"
    "v' = v\<lparr>odds_a := Some oa, odds_b := Some ob\<rparr>"
    by (auto simp: update_embed_def split: sum.splits)
  then show ?thesis by (simp add: update_embed_def)
qed


lemma modal_callback_users:
  "modal_callback v db user points option = Inr (v', db') \<Longrightarrow>
     users db' u = map_option (\<lambda>b. b - (if u = user then points else 0)) (users db u)"
  by (cases "users db u")
    (auto simp: modal_callback_def Let_def place_bet_db_def sql_add_points_apply
      split: sum.splits option.splits if_splits)

lemma modal_callback_total:
  "modal_callback v db user points option = Inr (v', db') \<Longrightarrow>
     total_stake v' u = total_stake v u + (if u = user then points else 0)"
  using merge_bet_total[of v user points option u]
  by (auto simp: modal_callback_def Let_def total_stake_def dest!: update_embed_ledgers
      split: sum.splits)

lemma modal_callback_distinct:
  "modal_callback v db user points option = Inr (v', db') \<Longrightarrow>
     distinct (map fst (option_a_points v)) \<Longrightarrow> distinct (map fst (option_b_points v)) \<Longrightarrow>
     distinct (map fst (option_a_points v')) \<and> distinct (map fst (option_b_points v'))"
  using merge_bet_distinct[of v user points option]
  by (auto simp: modal_callback_def Let_def dest!: update_embed_ledgers split: sum.splits)

lemma modal_callback_ledger:
  assumes "modal_callback v db user points option = Inr (v', db')"
  shows "filter (\<lambda>kv. fst kv = user) (ledger_of v' option)
           = [(user, stake_of (ledger_of v option) user + points)]"
    and "option_a v' = option_a v" and "prediction_id v' = prediction_id v"
proof -
  from assms have w: "update_embed (merge_bet v user points option) = Inr v'"
    by (auto simp: modal_callback_def Let_def split: sum.splits)
  note k = update_embed_ledgers[OF w] merge_bet_fields[of v user points option]
  from k show a: "option_a v' = option_a v" by simp
  from k show "prediction_id v' = prediction_id v" by simp
  have "ledger_of v' option = ledger_of (merge_bet v user points option) option"
    using k by (simp add: ledger_of_def)
  then show "filter (\<lambda>kv. fst kv = user) (ledger_of v' option)
           = [(user, stake_of (ledger_of v option) user + points)]"
    by (simp add: merge_bet_ledger)
qed

lemma modal_callback_bets:
  assumes "modal_callback v db user points option = Inr (v', db')"
    and "prediction_id v = Some pid" and "pid \<noteq> 0"
  shows "prediction_bets db' = prediction_bets (place_bet_db db pid user option points)"
  using assms update_embed_ledgers[of "merge_bet v user points option" v']
  by (auto simp: modal_callback_def Let_def place_bet_db_def merge_bet_def split_beta
      split: sum.splits)

lemma place_bet_db_first:
  "filter (same_bet pid user) (prediction_bets db) = [] \<Longrightarrow>
     filter (same_bet pid user) (prediction_bets (place_bet_db db pid user option points))
       = [\<lparr>bet_prediction_id = pid, bet_user_id = user, bet_option = option,
           bet_points = points\<rparr>]"
  by (simp add: place_bet_db_def same_bet_def)

lemma filter_map_same_bet:
  "filter (same_bet pid user)
     (map (\<lambda>r. if same_bet pid user r then r\<lparr>bet_points := bet_points r + points\<rparr> else r) rows)
   = map (\<lambda>r. r\<lparr>bet_points := bet_points r + points\<rparr>) (filter (same_bet pid user) rows)"
  by (induction rows) (auto simp: same_bet_def)

lemma place_bet_db_again:
  "filter (same_bet pid user) (prediction_bets db) = [r] \<Longrightarrow>
     filter (same_bet pid user) (prediction_bets (place_bet_db db pid user option points))
       = [r\<lparr>bet_points := bet_points r + points\<rparr>]"
  by (simp add: place_bet_db_def filter_map_same_bet)

lemma modal_callback_inv:
  assumes "view_inv v" "0 < points"
    and "modal_callback v db user points option = Inr (v', db')"
  shows "view_inv v' \<and> pool_total v' = pool_total v + points"
proof -
  from assms(3) have w: "update_embed (merge_bet v user points option) = Inr v'"
    by (auto simp: modal_callback_def Let_def split: sum.splits)
  note l = update_embed_ledgers[OF w]
  from assms(1) have d: "distinct (map fst (option_a_points v))"
    "distinct (map fst (option_b_points v))"
    and p: "positive_stakes (option_a_points v)" "positive_stakes (option_b_points v)"
    by (simp_all add: view_inv_def)
  from merge_bet_inv[OF d p assms(2), of user option] merge_bet_distinct[OF d, of user points option]
    l update_embed_idem[OF w]
  show ?thesis by (simp add: view_inv_def pool_total_def)
qed

lemma modal_callback_returns:
  assumes "view_inv v" "0 < points" "pool_total v + points \<le> 2 ^ 63"
  shows "\<exists>v' db'. modal_callback v db user points option = Inr (v', db')"
proof -
  from assms(1) have d: "distinct (map fst (option_a_points v))"
    "distinct (map fst (option_b_points v))"
    and ps: "positive_stakes (option_a_points v)" "positive_stakes (option_b_points v)"
    by (simp_all add: view_inv_def)
  note m = merge_bet_inv[OF d ps assms(2), of user option]
  from m assms(3) have "pool_total (merge_bet v user points option) \<le> 2 ^ 63" by simp
  from update_embed_returns[OF _ _ this] m obtain v' where
    "update_embed (merge_bet v user points option) = Inr v'" by blast
  then show ?thesis by (simp add: modal_callback_def Let_def)
qed

lemma create_prediction_inv:
  "\<exists>p. create_prediction t a b th = Inr p \<and> view_inv (view p) \<and> pool_total (view p) = 0"
  by (simp add: create_prediction_def PredictionView_init_def update_embed_def odds_def
        view_inv_def positive_stakes_def pool_total_def sum_values_def)

lemma lock_view_inv:
  assumes "view_inv v"
  shows "view_inv (lock_view v)"
proof -
  from assms have sync: "update_embed v = Inr v" by (simp add: view_inv_def)
  then obtain oa ob where
    o: "odds (option_a_points v) (option_b_points v) = Inr oa"
      "odds (option_b_points v) (option_a_points v) = Inr ob"
    and eq: "v\<lparr>odds_a := Some oa, odds_b := Some ob\<rparr> = v"
    by (auto simp: update_embed_def split: sum.splits)
  have "update_embed (lock_view v)
          = Inr (lock_view (v\<lparr>odds_a := Some oa, odds_b := Some ob\<rparr>))"
    using o by (simp add: update_embed_def lock_view_def)
  then have "update_embed (lock_view v) = Inr (lock_view v)" by (simp only: eq)
  with assms show ?thesis by (simp add: view_inv_def lock_view_def)
qed

lemma fresh_view_inv: "view_inv fresh_view" "pool_total fresh_view = 0"
  by (simp_all add: fresh_view_def PredictionView_init_def view_inv_def positive_stakes_def
        update_embed_def odds_def pool_total_def sum_values_def)

lemma fresh_view_created:
  "create_prediction t ''A'' ''B'' th = Inr p \<Longrightarrow> fresh_view = (view p)\<lparr>prediction_id := Some 1\<rparr>"
  by (auto simp: create_prediction_def fresh_view_def PredictionView_init_def update_embed_def
        odds_def)

lemma two_accepted_wagers:
  assumes pid: "prediction_id v = Some pid" "pid \<noteq> 0"
    and new: "\<not> dict_contains (ledger_of v option) user"
      "filter (same_bet pid user) (prediction_bets db) = []"
    and first: "modal_callback v db user p1 option = Inr (v1, db1)"
    and second: "modal_callback v1 db1 user p2 option = Inr (v2, db2)"
  shows "filter (\<lambda>kv. fst kv = user) (ledger_of v2 option) = [(user, p1 + p2)] \<and>
         filter (same_bet pid user) (prediction_bets db2)
           = [\<lparr>bet_prediction_id = pid, bet_user_id = user, bet_option = option,
               bet_points = p1 + p2\<rparr>] \<and>
         users db1 user = map_option (\<lambda>b. b - p1) (users db user) \<and>
         users db2 user = map_option (\<lambda>b. b - (p1 + p2)) (users db user)"
proof -
  from new(1) have s0: "stake_of (ledger_of v option) user = 0"
    by (simp add: dict_contains_def stake_of_def)
  from modal_callback_ledger[OF first] s0 have
    l1: "filter (\<lambda>kv. fst kv = user) (ledger_of v1 option) = [(user, p1)]"
    and id1: "prediction_id v1 = Some pid"
    by (simp_all add: pid)
  from modal_callback_ledger(1)[OF second] stake_of_filter[OF l1] have
    l2: "filter (\<lambda>kv. fst kv = user) (ledger_of v2 option) = [(user, p1 + p2)]"
    by simp
  have b1: "filter (same_bet pid user) (prediction_bets db1)
              = [\<lparr>bet_prediction_id = pid, bet_user_id = user, bet_option = option,
                  bet_points = p1\<rparr>]"
    using modal_callback_bets[OF first pid] place_bet_db_first[OF new(2)] by simp
  have b2: "filter (same_bet pid user) (prediction_bets db2)
              = [\<lparr>bet_prediction_id = pid, bet_user_id = user, bet_option = option,
                  bet_points = p1 + p2\<rparr>]"
    using modal_callback_bets[OF second id1 pid(2)] place_bet_db_again[OF b1] by simp
  have u1: "users db1 user = map_option (\<lambda>b. b - p1) (users db user)"
    using modal_callback_users[OF first, of user] by simp
  have u2: "users db2 user = map_option (\<lambda>b. b - (p1 + p2)) (users db user)"
    using modal_callback_users[OF second, of user] u1 by (cases "users db user") simp_all
  from l2 b2 u1 u2 show ?thesis by blast
qed

text \<open>
  C1. Take a view that has its database id and a user with no position on the option and
  no persisted bet on the prediction. Two successive wagers of \<open>p1\<close> and \<open>p2\<close> points by
  the user on the option that \<open>modal_callback\<close> accepts leave exactly one entry for the
  user in the ledger of the option and exactly one row for the user in
  \<open>prediction_bets\<close>, both equal to \<open>p1 + p2\<close>, and the balance of the user is lower by
  \<open>p1\<close> after the first wager and by \<open>p1 + p2\<close> after the second. Both wagers are
  accepted when the amounts are positive, the view is in its invariant and the pools
  stay within \<open>2^63\<close>.
\<close>

theorem two_wagers_merge:
  assumes pid: "prediction_id v = Some pid" "pid \<noteq> 0"
    and new: "\<not> dict_contains (ledger_of v option) user"
      "filter (same_bet pid user) (prediction_bets db) = []"
  shows "(view_inv v \<and> 0 < p1 \<and> 0 < p2 \<and> pool_total v + p1 + p2 \<le> 2 ^ 63 \<longrightarrow>
            (\<exists>v1 db1 v2 db2.
               modal_callback v db user p1 option = Inr (v1, db1) \<and>
               modal_callback v1 db1 user p2 option = Inr (v2, db2))) \<and>
         (\<forall>v1 db1 v2 db2.
            modal_callback v db user p1 option = Inr (v1, db1) \<and>
            modal_callback v1 db1 user p2 option = Inr (v2, db2) \<longrightarrow>
              filter (\<lambda>kv. fst kv = user) (ledger_of v2 option) = [(user, p1 + p2)] \<and>
              filter (same_bet pid user) (prediction_bets db2)
                = [\<lparr>bet_prediction_id = pid, bet_user_id = user, bet_option = option,
                    bet_points = p1 + p2\<rparr>] \<and>
              users db1 user = map_option (\<lambda>b. b - p1) (users db user) \<and>
              users db2 user = map_option (\<lambda>b. b - (p1 + p2)) (users db user))"
proof (rule conjI; intro allI impI)
  assume a: "view_inv v \<and> 0 < p1 \<and> 0 < p2 \<and> pool_total v + p1 + p2 \<le> 2 ^ 63"
  then have inv: "view_inv v" and p1: "0 < p1" and p2: "0 < p2"
    and le1: "pool_total v + p1 \<le> 2 ^ 63"
    by simp_all
  from modal_callback_returns[OF inv p1 le1] obtain v1 db1 where
    first: "modal_callback v db user p1 option = Inr (v1, db1)" by blast
  from modal_callback_inv[OF inv p1 first] a have
    inv1: "view_inv v1" and le2: "pool_total v1 + p2 \<le> 2 ^ 63"
    by simp_all
  from modal_callback_returns[OF inv1 p2 le2] obtain v2 db2 where
    "modal_callback v1 db1 user p2 option = Inr (v2, db2)" by blast
  with first show "\<exists>v1 db1 v2 db2.
      modal_callback v db user p1 option = Inr (v1, db1) \<and>
      modal_callback v1 db1 user p2 option = Inr (v2, db2)"
    by blast
next
  fix v1 db1 v2 db2
  assume "modal_callback v db user p1 option = Inr (v1, db1) \<and>
          modal_callback v1 db1 user p2 option = Inr (v2, db2)"
  then have first: "modal_callback v db user p1 option = Inr (v1, db1)"
    and second: "modal_callback v1 db1 user p2 option = Inr (v2, db2)"
    by simp_all
  from two_accepted_wagers[OF pid new first second]
  show "filter (\<lambda>kv. fst kv = user) (ledger_of v2 option) = [(user, p1 + p2)] \<and>
        filter (same_bet pid user) (prediction_bets db2)
          = [\<lparr>bet_prediction_id = pid, bet_user_id = user, bet_option = option,
              bet_points = p1 + p2\<rparr>] \<and>
        users db1 user = map_option (\<lambda>b. b - p1) (users db user) \<and>
        users db2 user = map_option (\<lambda>b. b - (p1 + p2)) (users db user)" .
qed

theorem two_wagers_merge_witness:
  "\<exists>v1 db1 v2 db2.
     modal_callback fresh_view one_user_db 7 30 ''A'' = Inr (v1, db1) \<and>
     modal_callback v1 db1 7 20 ''A'' = Inr (v2, db2) \<and>
     filter (\<lambda>kv. fst kv = 7) (option_a_points v2) = [(7, 50)] \<and>
     filter (same_bet 1 7) (prediction_bets db2)
       = [\<lparr>bet_prediction_id = 1, bet_user_id = 7, bet_option = ''A'', bet_points = 50\<rparr>] \<and>
     users db1 7 = Some 70 \<and> users db2 7 = Some 50"
proof -
  have h: "prediction_id fresh_view = Some 1" "(1::nat) \<noteq> 0"
    "\<not> dict_contains (ledger_of fresh_view ''A'') 7"
    "filter (same_bet 1 7) (prediction_bets one_user_db) = []"
    by (simp_all add: fresh_view_def PredictionView_init_def ledger_of_def
          dict_contains_def one_user_db_def)
  have g: "view_inv fresh_view \<and> (0::int) < 30 \<and> (0::int) < 20 \<and>
           pool_total fresh_view + 30 + 20 \<le> 2 ^ 63"
    by (simp add: fresh_view_inv)
  note t = two_wagers_merge[OF h, of 30 20]
  from t g obtain v1 db1 v2 db2 where
    run: "modal_callback fresh_view one_user_db 7 30 ''A'' = Inr (v1, db1)"
      "modal_callback v1 db1 7 20 ''A'' = Inr (v2, db2)"
    by blast
  with t have
    "filter (\<lambda>kv. fst kv = 7) (ledger_of v2 ''A'') = [(7, 50)]"
    "filter (same_bet 1 7) (prediction_bets db2)
       = [\<lparr>bet_prediction_id = 1, bet_user_id = 7, bet_option = ''A'', bet_points = 50\<rparr>]"
    "users db1 7 = map_option (\<lambda>b. b - 30) (users one_user_db 7)"
    "users db2 7 = map_option (\<lambda>b. b - (30 + 20)) (users one_user_db 7)"
    by (simp_all del: One_nat_def)
  moreover from modal_callback_ledger(2)[OF run(1)] modal_callback_ledger(2)[OF run(2)]
  have "ledger_of v2 ''A'' = option_a_points v2"
    by (simp add: ledger_of_def fresh_view_def PredictionView_init_def)
  ultimately have
    "modal_callback fresh_view one_user_db 7 30 ''A'' = Inr (v1, db1) \<and>
     modal_callback v1 db1 7 20 ''A'' = Inr (v2, db2) \<and>
     filter (\<lambda>kv. fst kv = 7) (option_a_points v2) = [(7, 50)] \<and>
     filter (same_bet 1 7) (prediction_bets db2)
       = [\<lparr>bet_prediction_id = 1, bet_user_id = 7, bet_option = ''A'', bet_points = 50\<rparr>] \<and>
     users db1 7 = Some 70 \<and> users db2 7 = Some 50"
    using run by (simp add: one_user_db_def)
  then show ?thesis
    by - (rule exI[of _ v1], rule exI[of _ db1], rule exI[of _ v2], rule exI[of _ db2], assumption)
qed

text \<open>
  An accepted wager of a positive amount keeps the invariant of the view, adds the amount
  to the pools and leaves the lock flag and the database id as they are.
\<close>

theorem accepted_wager_keeps_invariant:
  assumes "view_inv v" "0 < points"
    and "modal_callback v db user points option = Inr (v', db')"
  shows "view_inv v' \<and> pool_total v' = pool_total v + points \<and>
         locked v' = locked v \<and> prediction_id v' = prediction_id v"
proof -
  from assms(3) have w: "update_embed (merge_bet v user points option) = Inr v'"
    by (auto simp: modal_callback_def Let_def split: sum.splits)
  from update_embed_ledgers[OF w] have "locked v' = locked v" "prediction_id v' = prediction_id v"
    by (simp_all add: merge_bet_def split_beta)
  with modal_callback_inv[OF assms] show ?thesis by simp
qed

theorem accepted_wager_keeps_invariant_witness:
  "\<exists>v' db'. modal_callback fresh_view one_user_db 7 30 ''A'' = Inr (v', db') \<and>
      view_inv v' \<and> pool_total v' = 30"
proof -
  have "pool_total fresh_view + 30 \<le> 2 ^ 63" by (simp add: fresh_view_inv)
  from modal_callback_returns[OF fresh_view_inv(1) _ this, of one_user_db 7 "''A''"]
  obtain v' db' where run: "modal_callback fresh_view one_user_db 7 30 ''A'' = Inr (v', db')"
    by auto
  from accepted_wager_keeps_invariant[OF fresh_view_inv(1) _ run] have
    "view_inv v'" "pool_total v' = 30"
    by (simp_all add: fresh_view_inv)
  with run show ?thesis by blast
qed

subsection \<open>The button and the modal\<close>

text \<open>
  The side check of \<open>button_callback\<close>: a user who is in the ledger of one option and
  presses the button of the other option gets the rejection and no modal.
\<close>

lemma press_rejects_side_switch:
  "(dict_contains (option_a_points v) user \<longrightarrow>
      button_callback v db user (option_b v) = Inl SideConflict) \<and>
   (dict_contains (option_b_points v) user \<longrightarrow>
      button_callback v db user (option_a v) = Inl SideConflict)"
  by (simp add: button_callback_def)

text \<open>
  C10. For a user with no row in \<open>users\<close>, the \<open>balance\<close> command displays 0, the modal a
  button press opens offers 0 points, and that modal rejects every input: a positive
  amount as InsufficientFunds.
\<close>

theorem no_row_reads_zero:
  assumes "users db u = None"
  shows "balance db u None = 0 \<and> balance db ctx_user (Some u) = 0 \<and>
         (\<forall>v label m v' db' val.
            button_callback v db u label = Inr m \<longrightarrow>
              user_points m = 0 \<and>
              (\<exists>e. PredictionModal_callback m v' db' u val = Inl e) \<and>
              (isdigit val \<longrightarrow> 0 < int_of_digits val \<longrightarrow>
                 PredictionModal_callback m v' db' u val = Inl InsufficientFunds))"
  using assms
  by (auto simp: balance_def points_or_zero_def button_callback_def
        PredictionModal_callback_def Let_def split: if_splits)

theorem no_row_reads_zero_witness:
  "users no_users_db 5 = None \<and> balance no_users_db 5 None = 0 \<and>
   button_callback fresh_view no_users_db 5 ''A'' = Inr \<lparr>modal_option = ''A'', user_points = 0\<rparr> \<and>
   PredictionModal_callback \<lparr>modal_option = ''A'', user_points = 0\<rparr> fresh_view no_users_db 5 ''10''
     = Inl InsufficientFunds"
proof -
  have n: "users no_users_db 5 = None" by (simp add: no_users_db_def)
  have b: "button_callback fresh_view no_users_db 5 ''A''
             = Inr \<lparr>modal_option = ''A'', user_points = 0\<rparr>"
    by (simp add: button_callback_def fresh_view_def PredictionView_init_def dict_contains_def
          points_or_zero_def no_users_db_def)
  have d: "isdigit ''10''" "0 < int_of_digits ''10''"
    by (simp_all add: isdigit_def int_of_digits_def)
  from no_row_reads_zero[OF n, of 5] b d n show ?thesis by blast
qed

lemma odds_40_0: "odds [(7, 40)] [] = Inr (PyFloat 1)" "odds [] [(7, 40)] = Inr (PyInt 1)"
  by code_simp+

lemma odds_40_10:
  "odds [(7, 40)] [(7, 10)] = Inr (PyFloat (5 / 4))" "odds [(7, 10)] [(7, 40)] = Inr (PyFloat 5)"
  by code_simp+

text \<open>
  C8. The side check is made when a button is pressed and nowhere else:
  \<open>PredictionModal.callback\<close> and \<open>modal_callback\<close> never look at the other ledger. User 7
  opens the modal of option B while holding no position, then wagers 40 on A. A new press
  of B is now rejected with SideConflict, but the B modal opened before is still
  accepted: submitted with 10 it puts user 7 into the ledger of B next to the entry in
  the ledger of A, debits the balance to 50, and adds the 10 points to the persisted row
  of option A.
\<close>

theorem side_switch_through_open_modal:
  "button_callback fresh_view one_user_db 7 ''B'' = Inr \<lparr>modal_option = ''B'', user_points = 100\<rparr> \<and>
   (\<exists>v1 db1. PredictionModal_callback \<lparr>modal_option = ''A'', user_points = 100\<rparr>
                 fresh_view one_user_db 7 ''40'' = Inr (v1, db1) \<and>
      dict_contains (option_a_points v1) 7 \<and>
      button_callback v1 db1 7 ''B'' = Inl SideConflict \<and>
      (\<exists>v2 db2. PredictionModal_callback \<lparr>modal_option = ''B'', user_points = 100\<rparr>
                    v1 db1 7 ''10'' = Inr (v2, db2) \<and>
         option_a_points v2 = [(7, 40)] \<and> option_b_points v2 = [(7, 10)] \<and>
         users db2 7 = Some 50 \<and>
         prediction_bets db2 = [\<lparr>bet_prediction_id = 1, bet_user_id = 7,
                                  bet_option = ''A'', bet_points = 50\<rparr>]))"
  by (simp add: button_callback_def fresh_view_def PredictionView_init_def dict_contains_def
        points_or_zero_def one_user_db_def PredictionModal_callback_def
        isdigit_def int_of_digits_def modal_callback_def merge_bet_def dict_pop_def dict_set_def
        update_embed_def odds_40_0 odds_40_10 sql_add_points_def place_bet_db_def same_bet_def)

text \<open>
  C2. \<open>lock_view\<close> sets \<open>locked\<close> and disables the two buttons, and nothing else reads
  \<open>locked\<close> on the way to the ledger: a modal opened by user 7 before the lock and
  submitted after it is merged into the ledger of option A, debited and persisted.
\<close>

theorem bet_after_lock_is_placed:
  "button_callback fresh_view one_user_db 7 ''A'' = Inr \<lparr>modal_option = ''A'', user_points = 100\<rparr> \<and>
   locked (lock_view fresh_view) \<and> items_disabled (lock_view fresh_view) \<and>
   (\<exists>v db. PredictionModal_callback \<lparr>modal_option = ''A'', user_points = 100\<rparr>
               (lock_view fresh_view) one_user_db 7 ''40'' = Inr (v, db) \<and>
            locked v \<and> option_a_points v = [(7, 40)] \<and> users db 7 = Some 60 \<and>
            prediction_bets db = [\<lparr>bet_prediction_id = 1, bet_user_id = 7,
                                    bet_option = ''A'', bet_points = 40\<rparr>])"
  by (simp add: button_callback_def fresh_view_def PredictionView_init_def dict_contains_def
        points_or_zero_def one_user_db_def lock_view_def PredictionModal_callback_def
        isdigit_def int_of_digits_def modal_callback_def merge_bet_def dict_pop_def dict_set_def
        update_embed_def odds_40_0 sql_add_points_def place_bet_db_def same_bet_def)

section \<open>Settlement\<close>








text \<open>
  C5. When one of the two ledgers is empty, a completion returns, locks the view and
  credits every user exactly the stake the ledgers hold for them, whatever the winner and
  whatever the odds: with A empty and B = 150 (user 12), user 12 is credited 150.
\<close>

theorem wash_refunds_stakes:
  assumes "option_a_points (view p) = [] \<or> option_b_points (view p) = []"
    and "distinct (map fst (option_a_points (view p)))"
    and "distinct (map fst (option_b_points (view p)))"
  shows "\<exists>p' db'. complete_prediction p db winner = Inr (p', db') \<and>
           locked (view p') \<and>
           (\<forall>u. users db' u =
                  map_option (\<lambda>b. b + stake_of (option_a_points (view p)) u
                                      + stake_of (option_b_points (view p)) u) (users db u))"
  using assms
  by (auto simp: complete_prediction_def Let_def lock_view_def perform_many_add_credited
        credited_append credited_stakes add.assoc)

theorem wash_refunds_stakes_witness:
  "\<exists>p' db'. complete_prediction
               (prediction_of (fresh_view\<lparr>option_b_points := [(12, 150)]\<rparr>)) two_users_db ''A''
             = Inr (p', db') \<and>
           users db' 12 = Some 650 \<and> users db' 11 = Some 500"
proof -
  let ?p = "prediction_of (fresh_view\<lparr>option_b_points := [(12, 150)]\<rparr>)"
  have a: "option_a_points (view ?p) = []" and b: "option_b_points (view ?p) = [(12, 150)]"
    by (simp_all add: prediction_of_def fresh_view_def PredictionView_init_def)
  have h: "option_a_points (view ?p) = [] \<or> option_b_points (view ?p) = []"
    "distinct (map fst (option_a_points (view ?p)))"
    "distinct (map fst (option_b_points (view ?p)))"
    by (simp_all add: a b)
  from wash_refunds_stakes[OF h, of two_users_db "''A''"] show ?thesis
    by (auto simp: a b stake_of_def two_users_db_def)
qed

lemma place_bets_escrow:
  "place_bets v db bets = Inr (v', db') \<Longrightarrow>
     distinct (map fst (option_a_points v)) \<Longrightarrow> distinct (map fst (option_b_points v)) \<Longrightarrow>
     distinct (map fst (option_a_points v')) \<and> distinct (map fst (option_b_points v')) \<and>
     (\<forall>u. users db' u = map_option (\<lambda>b. b - (total_stake v' u - total_stake v u)) (users db u))"
proof (induction bets arbitrary: v db)
  case Nil
  then show ?case by (simp add: option.map_ident)
next
  case (Cons bet bets)
  from Cons.prems(1) obtain v1 db1 where
    step: "modal_callback v db (fst bet) (fst (snd bet)) (snd (snd bet)) = Inr (v1, db1)"
    and rest: "place_bets v1 db1 bets = Inr (v', db')"
    by (auto split: sum.splits)
  note d1 = modal_callback_distinct[OF step Cons.prems(2,3)]
  from Cons.IH[OF rest] d1 have
    ih: "distinct (map fst (option_a_points v')) \<and> distinct (map fst (option_b_points v'))"
      "\<And>u. users db' u = map_option (\<lambda>b. b - (total_stake v' u - total_stake v1 u)) (users db1 u)"
    by simp_all
  have "users db' u = map_option (\<lambda>b. b - (total_stake v' u - total_stake v u)) (users db u)" for u
    using ih(2)[of u] modal_callback_users[OF step, of u] modal_callback_total[OF step, of u]
    by (cases "users db u") auto
  with ih(1) show ?case by blast
qed

lemma refund_after_bets:
  assumes fresh: "option_a_points v0 = []" "option_b_points v0 = []"
    and bets: "place_bets v0 db0 bets = Inr (v, db)"
    and p: "view p = v \<or> view p = lock_view v"
  shows "\<exists>p' db'. refund_prediction p db = (p', db') \<and> locked (view p') \<and>
           (\<forall>u. users db' u = map_option (\<lambda>b. b + total_stake v u) (users db u)) \<and>
           users db' = users db0"
proof -
  from place_bets_escrow[OF bets] fresh have
    dist: "distinct (map fst (option_a_points v))" "distinct (map fst (option_b_points v))"
    and esc: "\<And>u. users db u = map_option (\<lambda>b. b - total_stake v u) (users db0 u)"
    by (simp_all add: total_stake_def stake_of_def)
  define db' where
    "db' = db\<lparr>users := perform_many_add (users db)
                           (stakes (option_a_points v) @ stakes (option_b_points v))\<rparr>"
  from p have led: "option_a_points (view p) = option_a_points v"
    "option_b_points (view p) = option_b_points v"
    by (auto simp: lock_view_def)
  have run: "refund_prediction p db = (p\<lparr>view := lock_view (view p)\<rparr>, db')"
    by (simp add: refund_prediction_def Let_def db'_def led)
  have credit: "users db' u = map_option (\<lambda>b. b + total_stake v u) (users db u)" for u
    by (simp add: db'_def perform_many_add_credited credited_append credited_stakes dist
          total_stake_def)
  have "users db' u = users db0 u" for u
    using credit[of u] esc[of u] by (cases "users db0 u") simp_all
  then have "users db' = users db0" by (rule ext)
  with run credit show ?thesis by (simp add: lock_view_def)
qed

lemma place_bets_returns:
  "view_inv v \<Longrightarrow> list_all (\<lambda>bet. 0 < fst (snd bet)) bets \<Longrightarrow>
     pool_total v + sum_list (map (\<lambda>bet. fst (snd bet)) bets) \<le> 2 ^ 63 \<Longrightarrow>
     \<exists>v' db'. place_bets v db bets = Inr (v', db')"
proof (induction bets arbitrary: v db)
  case Nil
  then show ?case by simp
next
  case (Cons bet bets)
  from Cons.prems(2) have pos: "0 < fst (snd bet)"
    and rest: "list_all (\<lambda>bet. 0 < fst (snd bet)) bets"
    by simp_all
  then have "0 \<le> sum_list (map (\<lambda>bet. fst (snd bet)) bets)"
    by (intro sum_list_nonneg) (auto simp: list_all_iff intro: less_imp_le)
  with Cons.prems(3) have le: "pool_total v + fst (snd bet) \<le> 2 ^ 63" by simp
  from modal_callback_returns[OF Cons.prems(1) pos le] obtain v1 db1 where
    step: "modal_callback v db (fst bet) (fst (snd bet)) (snd (snd bet)) = Inr (v1, db1)"
    by blast
  from modal_callback_inv[OF Cons.prems(1) pos step] have
    inv: "view_inv v1" and tot: "pool_total v1 = pool_total v + fst (snd bet)"
    by simp_all
  from Cons.prems(3) tot have
    "pool_total v1 + sum_list (map (\<lambda>bet. fst (snd bet)) bets) \<le> 2 ^ 63" by simp
  from Cons.IH[OF inv rest this] step show ?case by simp
qed

text \<open>
  C6. After any run of accepted wagers on a prediction that started with empty ledgers,
  a refund of the prediction, locked or not, credits every user exactly the stake the
  ledgers hold for them, and the \<open>users\<close> table is again what it was before the first
  wager. A run of positive wagers of at most \<open>2^63\<close> points in all is accepted. After the
  bets 100 on A by user 11 and 50 on B by user 12, the refund restores both balances.
\<close>

theorem refund_restores_balances:
  assumes fresh: "option_a_points v0 = []" "option_b_points v0 = []"
  shows "(update_embed v0 = Inr v0 \<and> list_all (\<lambda>bet. 0 < fst (snd bet)) bets \<and>
          sum_list (map (\<lambda>bet. fst (snd bet)) bets) \<le> 2 ^ 63 \<longrightarrow>
            (\<exists>v db. place_bets v0 db0 bets = Inr (v, db))) \<and>
         (\<forall>v db p. place_bets v0 db0 bets = Inr (v, db) \<and>
                    (view p = v \<or> view p = lock_view v) \<longrightarrow>
            (\<exists>p' db'. refund_prediction p db = (p', db') \<and> locked (view p') \<and>
               (\<forall>u. users db' u = map_option (\<lambda>b. b + total_stake v u) (users db u)) \<and>
               users db' = users db0))"
proof (rule conjI; intro allI impI)
  assume a: "update_embed v0 = Inr v0 \<and> list_all (\<lambda>bet. 0 < fst (snd bet)) bets \<and>
             sum_list (map (\<lambda>bet. fst (snd bet)) bets) \<le> 2 ^ 63"
  with fresh have inv: "view_inv v0" and tot: "pool_total v0 = 0"
    by (simp_all add: view_inv_def positive_stakes_def pool_total_def sum_values_def)
  from a tot have "pool_total v0 + sum_list (map (\<lambda>bet. fst (snd bet)) bets) \<le> 2 ^ 63"
    by simp
  from place_bets_returns[OF inv _ this] a
  show "\<exists>v db. place_bets v0 db0 bets = Inr (v, db)" by simp
next
  fix v db and p :: prediction
  assume "place_bets v0 db0 bets = Inr (v, db) \<and> (view p = v \<or> view p = lock_view v)"
  then have run: "place_bets v0 db0 bets = Inr (v, db)"
    and p: "view p = v \<or> view p = lock_view v"
    by simp_all
  show "\<exists>p' db'. refund_prediction p db = (p', db') \<and> locked (view p') \<and>
          (\<forall>u. users db' u = map_option (\<lambda>b. b + total_stake v u) (users db u)) \<and>
          users db' = users db0"
    by (rule refund_after_bets[OF fresh run p])
qed

lemma odds_two_bets:
  "odds [(11, 100)] [] = Inr (PyFloat 1)" "odds [] [(11, 100)] = Inr (PyInt 1)"
  "odds [(11, 100)] [(12, 50)] = Inr (PyFloat (3 / 2))" "odds [(12, 50)] [(11, 100)] = Inr (PyFloat 3)"
  by code_simp+

lemma place_two_bets:
  "\<exists>v db. place_bets fresh_view two_users_db [(11, 100, ''A''), (12, 50, ''B'')] = Inr (v, db) \<and>
          users db 11 = Some 400 \<and> users db 12 = Some 450 \<and>
          option_a_points v = [(11, 100)] \<and> option_b_points v = [(12, 50)]"
  by (simp add: fresh_view_def PredictionView_init_def two_users_db_def modal_callback_def
        merge_bet_def dict_pop_def dict_set_def update_embed_def odds_two_bets
        sql_add_points_def place_bet_db_def same_bet_def Let_def)

theorem refund_restores_balances_witness:
  "\<exists>v db p' db'.
     place_bets fresh_view two_users_db [(11, 100, ''A''), (12, 50, ''B'')] = Inr (v, db) \<and>
     users db 11 = Some 400 \<and> users db 12 = Some 450 \<and>
     refund_prediction (prediction_of v) db = (p', db') \<and>
     users db' 11 = Some 500 \<and> users db' 12 = Some 500"
proof -
  let ?bets = "[(11, 100, ''A''), (12, 50, ''B'')] :: (nat \<times> int \<times> string) list"
  have fresh: "option_a_points fresh_view = []" "option_b_points fresh_view = []"
    by (simp_all add: fresh_view_def PredictionView_init_def)
  have g: "update_embed fresh_view = Inr fresh_view \<and> list_all (\<lambda>bet. 0 < fst (snd bet)) ?bets \<and>
           sum_list (map (\<lambda>bet. fst (snd bet)) ?bets) \<le> 2 ^ 63"
    using fresh_view_inv(1) by (simp add: view_inv_def)
  note t = refund_restores_balances[OF fresh, of ?bets two_users_db]
  from t g obtain v db where run: "place_bets fresh_view two_users_db ?bets = Inr (v, db)"
    by blast
  with place_two_bets have u: "users db 11 = Some 400" "users db 12 = Some 450"
    by auto
  have "view (prediction_of v) = v \<or> view (prediction_of v) = lock_view v"
    by (simp add: prediction_of_def)
  with t run obtain p' db' where
    r: "refund_prediction (prediction_of v) db = (p', db')" "users db' = users two_users_db"
    by blast
  then have "users db' 11 = Some 500" "users db' 12 = Some 500"
    by (simp_all add: two_users_db_def)
  with run u r(1) have
    "place_bets fresh_view two_users_db ?bets = Inr (v, db) \<and>
     users db 11 = Some 400 \<and> users db 12 = Some 450 \<and>
     refund_prediction (prediction_of v) db = (p', db') \<and>
     users db' 11 = Some 500 \<and> users db' 12 = Some 500"
    by simp
  then show ?thesis
    by - (rule exI[of _ v], rule exI[of _ db], rule exI[of _ p'], rule exI[of _ db'], assumption)
qed

section \<open>Recovery\<close>

lemma credited_bets:
  "credited (map (\<lambda>(user_id, _, points). (points, user_id))
       (map (\<lambda>r. (bet_user_id r, bet_option r, bet_points r))
            (filter (\<lambda>r. bet_prediction_id r = pid) rows))) u
   = stake_in_bets rows pid u"
  by (induction rows) (auto simp: credited_def stake_in_bets_def same_bet_def)

lemma refund_prediction_bets_users:
  "users (refund_prediction_bets db pid) u
     = map_option (\<lambda>b. b + stake_in_bets (prediction_bets db) pid u) (users db u)"
proof (cases "get_bets_for_prediction db pid = []")
  case True
  then have "stake_in_bets (prediction_bets db) pid u = 0"
    using credited_bets[of pid "prediction_bets db" u]
    by (simp add: get_bets_for_prediction_def credited_def)
  with True show ?thesis
    by (simp add: refund_prediction_bets_def option.map_ident)
next
  case False
  then show ?thesis
    using credited_bets[of pid "prediction_bets db" u]
    by (simp add: refund_prediction_bets_def Let_def perform_many_add_credited
          get_bets_for_prediction_def)
qed

lemma refund_prediction_bets_tables:
  "prediction_bets (refund_prediction_bets db pid) = prediction_bets db \<and>
   predictions_table (refund_prediction_bets db pid) = predictions_table db"
  by (simp add: refund_prediction_bets_def Let_def)

lemma refund_step:
  "prediction_bets (update_prediction_status (refund_prediction_bets db pid) pid Refunded None)
     = prediction_bets db \<and>
   users (update_prediction_status (refund_prediction_bets db pid) pid Refunded None) u
     = map_option (\<lambda>b. b + stake_in_bets (prediction_bets db) pid u) (users db u) \<and>
   predictions_table (update_prediction_status (refund_prediction_bets db pid) pid Refunded None)
     = map (mark_refunded {pid}) (predictions_table db)"
  using refund_prediction_bets_users[of db pid u] refund_prediction_bets_tables[of db pid]
  by (simp add: update_prediction_status_def truthy_str_def mark_refunded_def)

lemma mark_refunded_twice:
  "mark_refunded ids (mark_refunded {pid} r) = mark_refunded (insert pid ids) r"
  by (simp add: mark_refunded_def)

lemma restored_db_id:
  "restore_view (from_database i t a b th ap bp lk) = Inr p \<Longrightarrow> db_id p = Some i"
  by (auto simp: restore_view_def from_database_def split: sum.splits)

lemma restore_rows_spec:
  "restore_rows fc rows cog db = Inr (cog', db') \<Longrightarrow>
     prediction_bets db' = prediction_bets db \<and>
     (\<forall>u. users db' u
            = map_option (\<lambda>b. b + refund_total fc (prediction_bets db) rows u) (users db u)) \<and>
     predictions_table db'
       = map (mark_refunded (row_id ` set (filter (unreachable fc) rows))) (predictions_table db) \<and>
     (\<forall>c p. predictions cog' c = Some p \<longrightarrow>
        predictions cog c = Some p \<or>
        (\<exists>r\<in>set rows. fc (row_thread_id r) = Found \<and> db_id p = Some (row_id r)))"
proof (induction rows arbitrary: cog db)
  case Nil
  then show ?case
    by (simp add: refund_total_def mark_refunded_def option.map_ident)
next
  case (Cons row rows)
  show ?case
  proof (cases "fc (row_thread_id row) = Found")
    case True
    from Cons.prems True obtain p where
      p: "restore_view
            (from_database (row_id row) (row_title row) (row_option_a row) (row_option_b row)
               (row_thread_id row)
               (fst (ledgers_of_bets (row_option_a row) (get_bets_for_prediction db (row_id row))))
               (snd (ledgers_of_bets (row_option_a row) (get_bets_for_prediction db (row_id row))))
               (row_status row = Locked)) = Inr p"
      and rest: "restore_rows fc rows (cog\<lparr>predictions := (predictions cog)(row_creator_id row \<mapsto> p)\<rparr>) db
                   = Inr (cog', db')"
      by (auto simp: Let_def split_beta split: sum.splits)
    note ih = Cons.IH[OF rest]
    have id: "db_id p = Some (row_id row)" by (rule restored_db_id[OF p])
    have reg: "predictions cog c = Some q \<or>
               (\<exists>r\<in>set (row # rows). fc (row_thread_id r) = Found \<and> db_id q = Some (row_id r))"
      if "predictions cog' c = Some q" for c q
    proof -
      from ih that have
        "((predictions cog)(row_creator_id row \<mapsto> p)) c = Some q \<or>
         (\<exists>r\<in>set rows. fc (row_thread_id r) = Found \<and> db_id q = Some (row_id r))"
        by simp
      then show ?thesis using True id by (auto split: if_splits)
    qed
    from ih True reg show ?thesis
      by (simp add: refund_total_def unreachable_def)
  next
    case False
    define db1 where
      "db1 = update_prediction_status (refund_prediction_bets db (row_id row)) (row_id row) Refunded None"
    from Cons.prems False have rest: "restore_rows fc rows cog db1 = Inr (cog', db')"
      by (cases "fc (row_thread_id row)") (simp_all add: db1_def)
    note ih = Cons.IH[OF rest]
    note st = refund_step[of db "row_id row", folded db1_def]
    have bets: "prediction_bets db' = prediction_bets db" using ih st by simp
    have us: "users db' u
                = map_option (\<lambda>b. b + refund_total fc (prediction_bets db) (row # rows) u) (users db u)"
      for u
    proof -
      have "users db' u = map_option (\<lambda>b. b + refund_total fc (prediction_bets db) rows u) (users db1 u)"
        using ih st by simp
      also have "users db1 u
                   = map_option (\<lambda>b. b + stake_in_bets (prediction_bets db) (row_id row) u) (users db u)"
        using refund_step[of db "row_id row" u] by (simp add: db1_def)
      finally show ?thesis
        using False by (cases "users db u") (simp_all add: refund_total_def unreachable_def)
    qed
    have tab: "predictions_table db'
                 = map (mark_refunded (row_id ` set (filter (unreachable fc) (row # rows))))
                     (predictions_table db)"
      using ih st False by (simp add: unreachable_def mark_refunded_twice comp_def)
    have reg: "predictions cog c = Some q \<or>
               (\<exists>r\<in>set (row # rows). fc (row_thread_id r) = Found \<and> db_id q = Some (row_id r))"
      if "predictions cog' c = Some q" for c q
      using ih that by auto
    from bets us tab reg show ?thesis by blast
  qed
qed

lemma refund_total_remove1:
  assumes "row \<in> set rows" "unreachable fc row"
  shows "refund_total fc bets rows u
           = stake_in_bets bets (row_id row) u + refund_total fc bets (remove1 row rows) u"
proof -
  from assms have "row \<in> set (filter (unreachable fc) rows)" by simp
  then show ?thesis
    by (simp add: refund_total_def sum_list_map_remove1 filter_remove1)
qed

lemma unreachable_refunded_if_returns:
  assumes run: "restore_predictions fc cog db = Inr (cog', db')"
    and row: "row \<in> set (predictions_table db)"
      "row_status row = Active \<or> row_status row = Locked"
      "fc (row_thread_id row) \<noteq> Found"
    and pk: "distinct (map row_id (predictions_table db))"
  shows "(\<forall>u. users db' u
                = map_option
                    (\<lambda>b. b + (stake_in_bets (prediction_bets db) (row_id row) u
                           + refund_total fc (prediction_bets db)
                               (remove1 row (get_restorable_predictions db)) u))
                    (users db u)) \<and>
         (\<exists>r\<in>set (predictions_table db'). row_id r = row_id row) \<and>
         (\<forall>r\<in>set (predictions_table db'). row_id r = row_id row \<longrightarrow> row_status r = Refunded) \<and>
         (\<forall>c p. predictions cog' c = Some p \<and> db_id p = Some (row_id row)
                  \<longrightarrow> predictions cog c = Some p)"
proof -
  let ?rows = "get_restorable_predictions db"
  let ?ids = "row_id ` set (filter (unreachable fc) ?rows)"
  from row have in_rows: "row \<in> set ?rows" and unr: "unreachable fc row"
    by (simp_all add: get_restorable_predictions_def unreachable_def)
  then have in_ids: "row_id row \<in> ?ids" by auto
  from run have spec: "restore_rows fc ?rows cog db = Inr (cog', db')"
    by (simp add: restore_predictions_def)
  note s = restore_rows_spec[OF spec]
  have us: "users db' u
              = map_option
                  (\<lambda>b. b + (stake_in_bets (prediction_bets db) (row_id row) u
                         + refund_total fc (prediction_bets db) (remove1 row ?rows) u))
                  (users db u)" for u
    using s refund_total_remove1[OF in_rows unr, of "prediction_bets db" u] by simp
  have tab: "predictions_table db' = map (mark_refunded ?ids) (predictions_table db)"
    using s by simp
  have "mark_refunded ?ids row \<in> set (predictions_table db')"
    using row(1) by (simp add: tab)
  moreover have "row_id (mark_refunded ?ids row) = row_id row"
    by (simp add: mark_refunded_def)
  ultimately have ex: "\<exists>r\<in>set (predictions_table db'). row_id r = row_id row"
    by blast
  have st: "\<forall>r\<in>set (predictions_table db'). row_id r = row_id row \<longrightarrow> row_status r = Refunded"
    using in_ids by (auto simp: tab mark_refunded_def split: if_splits)
  have reg: "predictions cog c = Some p"
    if entry: "predictions cog' c = Some p" "db_id p = Some (row_id row)" for c p
  proof -
    from s entry(1) have
      "predictions cog c = Some p \<or>
       (\<exists>r\<in>set ?rows. fc (row_thread_id r) = Found \<and> db_id p = Some (row_id r))"
      by blast
    moreover have False
      if r: "r \<in> set ?rows" "fc (row_thread_id r) = Found" "db_id p = Some (row_id r)" for r
    proof -
      from r(1) have "r \<in> set (predictions_table db)"
        by (simp add: get_restorable_predictions_def)
      moreover from r(3) entry(2) have "row_id r = row_id row" by simp
      ultimately have "r = row"
        using pk row(1) by (meson distinct_map inj_on_eq_iff)
      with r(2) row(3) show False by simp
    qed
    ultimately show ?thesis by blast
  qed
  from us ex st reg show ?thesis by blast
qed

lemma sum_values_update_le:
  "positive_stakes d \<Longrightarrow> sum_values (AList.update k x d) \<le> sum_values d + x"
proof (induction d)
  case Nil
  then show ?case by (simp add: sum_values_def)
next
  case (Cons kv d)
  then have "sum_values (AList.update k x d) \<le> sum_values d + x" and "0 < snd kv"
    by (simp_all add: positive_stakes_def)
  then show ?case by (cases kv) (auto simp: sum_values_def)
qed

lemma ledgers_fold_inv:
  fixes a0 b0 :: "(nat, int) dict"
  assumes "list_all (\<lambda>bet. 0 < snd (snd bet)) bets"
    and "distinct (map fst a0)" "distinct (map fst b0)"
    and "positive_stakes a0" "positive_stakes b0"
  shows "case foldl (\<lambda>(a_points, b_points) (user_id, option, points).
                      if option = a then (dict_set a_points user_id points, b_points)
                      else (a_points, dict_set b_points user_id points))
                (a0, b0) bets of
           (a', b') \<Rightarrow>
             distinct (map fst a') \<and> distinct (map fst b') \<and>
             positive_stakes a' \<and> positive_stakes b' \<and>
             sum_values a' + sum_values b'
               \<le> sum_values a0 + sum_values b0 + sum_list (map (\<lambda>bet. snd (snd bet)) bets)"
  using assms
proof (induction bets arbitrary: a0 b0)
  case Nil
  then show ?case by simp
next
  case (Cons bet bets)
  obtain u opt pts where bet: "bet = (u, opt, pts)" by (cases bet)
  from Cons.prems(1) bet have pts: "0 < pts" and rest: "list_all (\<lambda>bet. 0 < snd (snd bet)) bets"
    by simp_all
  show ?case
  proof (cases "opt = a")
    case True
    note ih = Cons.IH[OF rest distinct_update[OF Cons.prems(2), of u pts] Cons.prems(3)
        positive_stakes_update[OF Cons.prems(4) pts, of u] Cons.prems(5)]
    from ih sum_values_update_le[OF Cons.prems(4), of u pts] True show ?thesis
      by (auto simp: bet dict_set_def split: prod.splits)
  next
    case False
    note ih = Cons.IH[OF rest Cons.prems(2) distinct_update[OF Cons.prems(3), of u pts]
        Cons.prems(4) positive_stakes_update[OF Cons.prems(5) pts, of u]]
    from ih sum_values_update_le[OF Cons.prems(5), of u pts] False show ?thesis
      by (auto simp: bet dict_set_def split: prod.splits)
  qed
qed

lemma sum_list_filter_le:
  "list_all (\<lambda>r. 0 < bet_points r) rows \<Longrightarrow>
     sum_list (map bet_points (filter P rows)) \<le> sum_list (map bet_points rows)"
  by (induction rows) auto

lemma restored_view_inv:
  assumes "positive_bets db"
  shows "\<exists>p. restore_view
               (from_database i t a b th
                  (fst (ledgers_of_bets a (get_bets_for_prediction db i)))
                  (snd (ledgers_of_bets a (get_bets_for_prediction db i))) lk) = Inr p \<and>
             view_inv (view p) \<and> db_id p = Some i \<and> prediction_id (view p) = Some i"
proof -
  let ?bets = "get_bets_for_prediction db i"
  obtain a' b' where l: "ledgers_of_bets a ?bets = (a', b')" by (cases "ledgers_of_bets a ?bets")
  from assms have pos: "list_all (\<lambda>bet. 0 < snd (snd bet)) ?bets"
    by (simp add: positive_bets_def get_bets_for_prediction_def list_all_iff)
  have sum: "sum_list (map (\<lambda>bet. snd (snd bet)) ?bets) \<le> 2 ^ 63"
  proof -
    have "sum_list (map (\<lambda>bet. snd (snd bet)) ?bets)
            = sum_list (map bet_points (filter (\<lambda>r. bet_prediction_id r = i) (prediction_bets db)))"
      by (simp add: get_bets_for_prediction_def comp_def)
    also have "\<dots> \<le> sum_list (map bet_points (prediction_bets db))"
      using assms by (intro sum_list_filter_le) (simp add: positive_bets_def)
    finally show ?thesis using assms by (simp add: positive_bets_def)
  qed
  from ledgers_fold_inv[OF pos, of "[]" "[]" a] l have
    inv: "distinct (map fst a')" "distinct (map fst b')" "positive_stakes a'" "positive_stakes b'"
    and le: "sum_values a' + sum_values b' \<le> sum_list (map (\<lambda>bet. snd (snd bet)) ?bets)"
    by (simp_all add: ledgers_of_bets_def positive_stakes_def sum_values_def)
  let ?v = "PredictionView_init a b (Some i) (Some a') (Some b') lk"
  have led: "option_a_points ?v = a'" "option_b_points ?v = b'"
    by (simp_all add: PredictionView_init_def)
  from le sum have "pool_total ?v \<le> 2 ^ 63" by (simp add: pool_total_def led)
  from update_embed_returns[OF _ _ this] inv obtain v' where
    v': "update_embed ?v = Inr v'" "update_embed v' = Inr v'"
    by (auto simp: led)
  from update_embed_ledgers[OF v'(1)] inv v'(2) have "view_inv v'" "prediction_id v' = Some i"
    by (simp_all add: view_inv_def led PredictionView_init_def)
  with v'(1) show ?thesis
    by (simp add: restore_view_def from_database_def l)
qed

theorem recovery_returns:
  assumes "positive_bets db"
  shows "\<exists>cog' db'. restore_predictions fc cog db = Inr (cog', db')"
proof -
  have "\<exists>cog' db'. restore_rows fc rows cog db = Inr (cog', db')" for rows
    using assms
  proof (induction rows arbitrary: cog db)
    case Nil
    then show ?case by simp
  next
    case (Cons row rows)
    show ?case
    proof (cases "fc (row_thread_id row)")
      case Found
      from restored_view_inv[OF Cons.prems, of "row_id row" "row_title row" "row_option_a row"
          "row_option_b row" "row_thread_id row" "row_status row = Locked"]
      obtain p where "restore_view
               (from_database (row_id row) (row_title row) (row_option_a row) (row_option_b row)
                  (row_thread_id row)
                  (fst (ledgers_of_bets (row_option_a row) (get_bets_for_prediction db (row_id row))))
                  (snd (ledgers_of_bets (row_option_a row) (get_bets_for_prediction db (row_id row))))
                  (row_status row = Locked)) = Inr p"
        by blast
      with Found Cons.IH[OF Cons.prems] show ?thesis
        by (simp add: Let_def split_beta)
    next
      case NotFound
      have "positive_bets (update_prediction_status (refund_prediction_bets db (row_id row))
              (row_id row) Refunded None)"
        using Cons.prems refund_step[of db "row_id row"] by (simp add: positive_bets_def)
      from Cons.IH[OF this] NotFound show ?thesis by simp
    next
      case Forbidden
      have "positive_bets (update_prediction_status (refund_prediction_bets db (row_id row))
              (row_id row) Refunded None)"
        using Cons.prems refund_step[of db "row_id row"] by (simp add: positive_bets_def)
      from Cons.IH[OF this] Forbidden show ?thesis by simp
    qed
  qed
  then show ?thesis by (simp add: restore_predictions_def)
qed

text \<open>
  C9. For a row of \<open>predictions\<close> with status active or locked whose thread cannot be
  fetched (NotFound or Forbidden), a recovery that returns has credited every user their
  persisted stake in that prediction (next to the stakes of the other unreachable
  predictions), has set the status of the row to refunded, and has registered no
  prediction with the id of the row: an entry of the registry with that id was there
  before the recovery. The recovery returns when the persisted bets are positive and
  within \<open>2^63\<close> in all. Row ids are distinct, as a primary key is.
\<close>

theorem unreachable_prediction_refunded:
  assumes row: "row \<in> set (predictions_table db)"
      "row_status row = Active \<or> row_status row = Locked"
      "fc (row_thread_id row) \<noteq> Found"
    and pk: "distinct (map row_id (predictions_table db))"
  shows "(positive_bets db \<longrightarrow> (\<exists>cog' db'. restore_predictions fc cog db = Inr (cog', db'))) \<and>
         (\<forall>cog' db'. restore_predictions fc cog db = Inr (cog', db') \<longrightarrow>
            (\<forall>u. users db' u
                   = map_option
                       (\<lambda>b. b + (stake_in_bets (prediction_bets db) (row_id row) u
                              + refund_total fc (prediction_bets db)
                                  (remove1 row (get_restorable_predictions db)) u))
                       (users db u)) \<and>
            (\<exists>r\<in>set (predictions_table db'). row_id r = row_id row) \<and>
            (\<forall>r\<in>set (predictions_table db'). row_id r = row_id row \<longrightarrow> row_status r = Refunded) \<and>
            (\<forall>c p. predictions cog' c = Some p \<and> db_id p = Some (row_id row)
                     \<longrightarrow> predictions cog c = Some p))"
proof (rule conjI; intro allI impI)
  assume "positive_bets db"
  then show "\<exists>cog' db'. restore_predictions fc cog db = Inr (cog', db')"
    by (rule recovery_returns)
next
  fix cog' db'
  assume run: "restore_predictions fc cog db = Inr (cog', db')"
  show "(\<forall>u. users db' u
              = map_option
                  (\<lambda>b. b + (stake_in_bets (prediction_bets db) (row_id row) u
                         + refund_total fc (prediction_bets db)
                             (remove1 row (get_restorable_predictions db)) u))
                  (users db u)) \<and>
        (\<exists>r\<in>set (predictions_table db'). row_id r = row_id row) \<and>
        (\<forall>r\<in>set (predictions_table db'). row_id r = row_id row \<longrightarrow> row_status r = Refunded) \<and>
        (\<forall>c p. predictions cog' c = Some p \<and> db_id p = Some (row_id row)
                 \<longrightarrow> predictions cog c = Some p)"
    by (rule unreachable_refunded_if_returns[OF run row pk])
qed

theorem unreachable_prediction_refunded_witness:
  "positive_bets recovery_db \<and>
   (\<exists>cog' db'. restore_predictions (\<lambda>t. NotFound) idle_cog recovery_db = Inr (cog', db') \<and>
      users db' 11 = Some 100 \<and> users db' 12 = Some 60 \<and>
      map row_status (predictions_table db') = [Refunded] \<and>
      \<not> (\<exists>c p. predictions cog' c = Some p \<and> db_id p = Some 3))"
proof -
  have pb: "positive_bets recovery_db"
    by (simp add: positive_bets_def recovery_db_def)
  have h: "locked_row \<in> set (predictions_table recovery_db)"
    "row_status locked_row = Active \<or> row_status locked_row = Locked"
    "(\<lambda>t. NotFound) (row_thread_id locked_row) \<noteq> Found"
    "distinct (map row_id (predictions_table recovery_db))"
    by (simp_all add: recovery_db_def locked_row_def)
  note t = unreachable_prediction_refunded[OF h, of idle_cog]
  from t pb obtain cog' db' where
    run: "restore_predictions (\<lambda>t. NotFound) idle_cog recovery_db = Inr (cog', db')"
    by blast
  have "\<exists>cog' db'. restore_predictions (\<lambda>t. NotFound) idle_cog recovery_db = Inr (cog', db') \<and>
          length (predictions_table db') = 1"
    by (simp add: restore_predictions_def get_restorable_predictions_def recovery_db_def
          locked_row_def update_prediction_status_def refund_prediction_bets_def Let_def)
  with run have len: "length (predictions_table db') = 1" by auto
  note s = t[THEN conjunct2, rule_format, OF run]
  have restorable: "remove1 locked_row (get_restorable_predictions recovery_db) = []"
    by (simp add: get_restorable_predictions_def recovery_db_def locked_row_def)
  have id: "row_id locked_row = 3" by (simp add: locked_row_def)
  from s have "\<forall>u. users db' u
                  = map_option (\<lambda>b. b + stake_in_bets (prediction_bets recovery_db) 3 u)
                      (users recovery_db u)"
    by (simp add: restorable id refund_total_def)
  then have "users db' 11 = Some 100" "users db' 12 = Some 60"
    by (simp_all add: stake_in_bets_def same_bet_def recovery_db_def)
  moreover from s len have "map row_status (predictions_table db') = [Refunded]"
    by (cases "predictions_table db'") (auto simp: id)
  moreover from s have "\<not> (\<exists>c p. predictions cog' c = Some p \<and> db_id p = Some 3)"
    by (auto simp: id idle_cog_def)
  ultimately have
    "restore_predictions (\<lambda>t. NotFound) idle_cog recovery_db = Inr (cog', db') \<and>
     users db' 11 = Some 100 \<and> users db' 12 = Some 60 \<and>
     map row_status (predictions_table db') = [Refunded] \<and>
     \<not> (\<exists>c p. predictions cog' c = Some p \<and> db_id p = Some 3)"
    using run by simp
  then have "\<exists>cog' db'. restore_predictions (\<lambda>t. NotFound) idle_cog recovery_db = Inr (cog', db') \<and>
     users db' 11 = Some 100 \<and> users db' 12 = Some 60 \<and>
     map row_status (predictions_table db') = [Refunded] \<and>
     \<not> (\<exists>c p. predictions cog' c = Some p \<and> db_id p = Some 3)"
    by - (rule exI[of _ cog'], rule exI[of _ db'], assumption)
  with pb show ?thesis by simp
qed

text \<open>
  A prediction restored from positive persisted bets has its view in the invariant, with
  the database id of its row and locked exactly when its status was locked.
\<close>

theorem restored_view_well_formed:
  assumes "positive_bets db"
  shows "\<exists>p. restore_view
               (from_database i t a b th
                  (fst (ledgers_of_bets a (get_bets_for_prediction db i)))
                  (snd (ledgers_of_bets a (get_bets_for_prediction db i))) lk) = Inr p \<and>
             view_inv (view p) \<and> db_id p = Some i \<and> prediction_id (view p) = Some i \<and>
             locked (view p) = lk \<and> items_disabled (view p) = lk"
proof -
  from restored_view_inv[OF assms, of i t a b th lk] obtain p where
    p: "restore_view
          (from_database i t a b th
             (fst (ledgers_of_bets a (get_bets_for_prediction db i)))
             (snd (ledgers_of_bets a (get_bets_for_prediction db i))) lk) = Inr p"
    and rest: "view_inv (view p)" "db_id p = Some i" "prediction_id (view p) = Some i"
    by blast
  from p obtain v' where
    v': "update_embed (view (from_database i t a b th
             (fst (ledgers_of_bets a (get_bets_for_prediction db i)))
             (snd (ledgers_of_bets a (get_bets_for_prediction db i))) lk)) = Inr v'"
    and pv: "view p = v'"
    by (auto simp: restore_view_def split: sum.splits)
  from update_embed_ledgers[OF v'] pv have "locked (view p) = lk" "items_disabled (view p) = lk"
    by (simp_all add: from_database_def PredictionView_init_def)
  with p rest show ?thesis by blast
qed

theorem restored_view_well_formed_witness:
  "positive_bets recovery_db \<and>
   (\<exists>p. restore_view
          (from_database 3 ''T'' ''A'' ''B'' 77
             (fst (ledgers_of_bets ''A'' (get_bets_for_prediction recovery_db 3)))
             (snd (ledgers_of_bets ''A'' (get_bets_for_prediction recovery_db 3))) True) = Inr p \<and>
        view_inv (view p) \<and> prediction_id (view p) = Some 3 \<and> locked (view p))"
proof -
  have pb: "positive_bets recovery_db"
    by (simp add: positive_bets_def recovery_db_def)
  from restored_view_well_formed[OF pb, of 3 "''T''" "''A''" "''B''" 77 True] pb
  show ?thesis by auto
qed

section \<open>The accrual buffer\<close>

text \<open>
  C7. With user 1 in the buffer, \<open>update_points\<close> writes the buffer and awaits; a message
  of user 2 is recorded during the await; the flush then clears the whole buffer. User 2
  was not written by this flush, and the next flush finds an empty buffer and writes
  nothing.
\<close>

theorem record_during_flush_is_lost:
  "(\<exists>db1. update_points_write busy_cog no_users_db = Some db1 \<and>
      users db1 1 = Some 10 \<and> users db1 2 = None \<and>
      points_buffer (on_message busy_cog 2 False 7) = [(1, 10), (2, 7)] \<and>
      points_buffer (update_points_clear (on_message busy_cog 2 False 7)) = [] \<and>
      update_points_write (update_points_clear (on_message busy_cog 2 False 7)) db1 = None)"
  by (simp add: update_points_write_def busy_cog_def no_users_db_def perform_many_upsert_def
        sql_upsert_points_def on_message_def dict_set_def update_points_clear_def)

end
